theory Spec2Isabelle
  imports Complex_Main "HOL-Library.AList" "HOL-Library.Multiset"
begin

section \<open>HariGraph: a weighted directed graph of opinions\<close>

text \<open>
  The development embeds \<^verbatim>\<open>hari_plotter/hari_graph.py\<close>. A Python float is modelled as
  the \<^typ>\<open>real\<close> number it stands for, and the merges take the rounding of their float
  operations as a parameter (the other methods compute exactly); Python integers are
  modelled as \<^typ>\<open>int\<close>, dictionaries as association lists in
  insertion order (the order in which Python iterates them), and every exception the
  code can raise as a value of \<open>error\<close>. A mutating method takes the graph and returns
  either the new graph or the exception together with the graph as the exception leaves it.
\<close>

subsection \<open>Data model\<close>

datatype error =
  KeyError | ZeroDivisionError | AssertionError | StopIteration
  | ValueError | TypeError | NetworkXError | RuntimeError

text \<open>
  The attribute dictionary of a node. Every key is optional in the code (it reads the
  keys with \<^verbatim>\<open>.get(key, default)\<close>, except \<^verbatim>\<open>'value'\<close> in some methods), so every field
  is an option: \<open>None\<close> is an absent key. The field \<open>nvalue\<close> is the key \<^verbatim>\<open>'value'\<close>.
\<close>

record attrs =
  nvalue :: "real option"
  label :: "int list option"
  min_value :: "real option"
  max_value :: "real option"
  importance :: "real option"

text \<open>
  A \<^verbatim>\<open>networkx.DiGraph\<close>: the node dictionary and the edges, each edge with the key
  \<^verbatim>\<open>'value'\<close> of its attribute dictionary. The edge list is in insertion order, so the
  edges out of \<open>u\<close> appear in the order of \<^verbatim>\<open>_succ[u]\<close> and the edges into \<open>v\<close> in the
  order of \<^verbatim>\<open>_pred[v]\<close>.
\<close>

record graph =
  nodes :: "(int \<times> attrs) list"
  edges :: "((int \<times> int) \<times> real) list"

type_synonym outcome = "(error \<times> graph) + graph"

definition no_attrs :: attrs where
  "no_attrs = \<lparr>nvalue = None, label = None, min_value = None, max_value = None,
     importance = None\<rparr>"

definition empty_graph :: graph where
  "empty_graph = \<lparr>nodes = [], edges = []\<rparr>"

definition node_ids :: "graph \<Rightarrow> int list" where
  "node_ids g = map fst (nodes g)"

definition node_attrs :: "graph \<Rightarrow> int \<Rightarrow> attrs option" where
  "node_attrs g n = map_of (nodes g) n"

definition has_node :: "graph \<Rightarrow> int \<Rightarrow> bool" where
  "has_node g n = (node_attrs g n \<noteq> None)"

definition edge_value :: "graph \<Rightarrow> int \<Rightarrow> int \<Rightarrow> real option" where
  "edge_value g u v = map_of (edges g) (u, v)"

definition has_edge :: "graph \<Rightarrow> int \<Rightarrow> int \<Rightarrow> bool" where
  "has_edge g u v = (edge_value g u v \<noteq> None)"

text \<open>\<^verbatim>\<open>dict.update\<close>: the keys given replace the old ones, the others stay.\<close>

definition update_attrs :: "attrs \<Rightarrow> attrs \<Rightarrow> attrs" where
  "update_attrs old new =
     \<lparr>nvalue = (case nvalue new of None \<Rightarrow> nvalue old | Some x \<Rightarrow> Some x),
      label = (case label new of None \<Rightarrow> label old | Some x \<Rightarrow> Some x),
      min_value = (case min_value new of None \<Rightarrow> min_value old | Some x \<Rightarrow> Some x),
      max_value = (case max_value new of None \<Rightarrow> max_value old | Some x \<Rightarrow> Some x),
      importance = (case importance new of None \<Rightarrow> importance old | Some x \<Rightarrow> Some x)\<rparr>"

text \<open>
  The methods below are inherited from \<^verbatim>\<open>networkx.DiGraph\<close>; \<^verbatim>\<open>HariGraph\<close> overrides none
  of them. \<^verbatim>\<open>add_node\<close> creates the node or updates the attributes of an existing one;
  \<^verbatim>\<open>add_edge\<close> first adds either endpoint that is missing, as a node without attributes
  (\<^verbatim>\<open>read_network\<close> relies on it: it adds the edge from a neighbour before the neighbour's
  own line is read), then inserts the edge or overwrites its value; \<^verbatim>\<open>remove_node\<close>
  raises \<^verbatim>\<open>NetworkXError\<close> for a node that is not in the graph and removes the incident
  edges with the node.
\<close>

definition add_node :: "graph \<Rightarrow> int \<Rightarrow> attrs \<Rightarrow> graph" where
  "add_node g n a =
     g\<lparr>nodes := AList.update n
         (case node_attrs g n of None \<Rightarrow> a | Some old \<Rightarrow> update_attrs old a) (nodes g)\<rparr>"

definition ensure_node :: "graph \<Rightarrow> int \<Rightarrow> graph" where
  "ensure_node g n = (if has_node g n then g else g\<lparr>nodes := nodes g @ [(n, no_attrs)]\<rparr>)"

definition add_edge :: "graph \<Rightarrow> int \<Rightarrow> int \<Rightarrow> real \<Rightarrow> graph" where
  "add_edge g u v w =
     (let g1 = ensure_node (ensure_node g u) v
      in g1\<lparr>edges := AList.update (u, v) w (edges g1)\<rparr>)"

definition remove_edge :: "graph \<Rightarrow> int \<Rightarrow> int \<Rightarrow> error + graph" where
  "remove_edge g u v =
     (if has_edge g u v then Inr (g\<lparr>edges := AList.delete (u, v) (edges g)\<rparr>)
      else Inl NetworkXError)"

definition remove_node :: "graph \<Rightarrow> int \<Rightarrow> error + graph" where
  "remove_node g n =
     (if has_node g n
      then Inr \<lparr>nodes = AList.delete n (nodes g),
                edges = filter (\<lambda>e. fst (fst e) \<noteq> n \<and> snd (fst e) \<noteq> n) (edges g)\<rparr>
      else Inl NetworkXError)"

definition successors :: "graph \<Rightarrow> int \<Rightarrow> int list" where
  "successors g u = map (snd \<circ> fst) (filter (\<lambda>e. fst (fst e) = u) (edges g))"

definition predecessors :: "graph \<Rightarrow> int \<Rightarrow> int list" where
  "predecessors g v = map (fst \<circ> fst) (filter (\<lambda>e. snd (fst e) = v) (edges g))"

text \<open>
  \<^verbatim>\<open>list(self.edges(data=True))\<close>: the out-edges of every node, node by node in the order of
  the node dictionary; only the key \<^verbatim>\<open>'value'\<close> of the data is kept.
\<close>

definition edges_data :: "graph \<Rightarrow> (int \<times> int \<times> real) list" where
  "edges_data g =
     concat (map (\<lambda>u. map (\<lambda>e. (u, snd (fst e), snd e))
                          (filter (\<lambda>e. fst (fst e) = u) (edges g))) (node_ids g))"

text \<open>\<^verbatim>\<open>self.nodes[n].get('label', [n])\<close> and the other defaulted reads.\<close>

definition get_label :: "int \<Rightarrow> attrs \<Rightarrow> int list" where
  "get_label n a = (case label a of None \<Rightarrow> [n] | Some l \<Rightarrow> l)"

definition get_min_value :: "attrs \<Rightarrow> real \<Rightarrow> real" where
  "get_min_value a d = (case min_value a of None \<Rightarrow> d | Some x \<Rightarrow> x)"

definition get_max_value :: "attrs \<Rightarrow> real \<Rightarrow> real" where
  "get_max_value a d = (case max_value a of None \<Rightarrow> d | Some x \<Rightarrow> x)"

text \<open>\<^verbatim>\<open>self.nodes[n]['value']\<close>: \<^verbatim>\<open>KeyError\<close> for a missing node and for a missing key.\<close>

definition node_value :: "graph \<Rightarrow> int \<Rightarrow> error + real" where
  "node_value g n =
     (case node_attrs g n of None \<Rightarrow> Inl KeyError
      | Some a \<Rightarrow> (case nvalue a of None \<Rightarrow> Inl KeyError | Some x \<Rightarrow> Inr x))"

text \<open>\<^verbatim>\<open>len(self.nodes[n].get('label', [n]))\<close>.\<close>

definition node_size :: "graph \<Rightarrow> int \<Rightarrow> error + nat" where
  "node_size g n =
     (case node_attrs g n of None \<Rightarrow> Inl KeyError | Some a \<Rightarrow> Inr (length (get_label n a)))"

subsection \<open>Similarity\<close>

text \<open>
  \<^verbatim>\<open>default_similarity_function\<close>, with its four coefficients as the last arguments. The two
  edge values are \<open>None\<close> when the edge does not exist. The division by
  \<^verbatim>\<open>label_sum\<close> raises when both sizes are zero and an edge exists; \<^verbatim>\<open>1 + size\<close> is never
  zero.
\<close>

definition default_similarity_function ::
  "real \<Rightarrow> real \<Rightarrow> nat \<Rightarrow> nat \<Rightarrow> real option \<Rightarrow> real option \<Rightarrow>
   real \<Rightarrow> real \<Rightarrow> real \<Rightarrow> real \<Rightarrow> error + real" where
  "default_similarity_function vi vj size_i size_j edge_val reverse_edge_val
       value_coef extreme_coef influence_coef size_coef =
     (let value_proximity = value_coef * (1 - \<bar>vi - vj\<bar>);
          extreme_proximity = extreme_coef * min (min vi vj) (min (1 - vi) (1 - vj));
          label_sum = size_i + size_j
      in if (edge_val \<noteq> None \<or> reverse_edge_val \<noteq> None) \<and> label_sum = 0
         then Inl ZeroDivisionError
         else
           let influence0 = (case edge_val of None \<Rightarrow> 0
                  | Some e \<Rightarrow> (e * real size_j) / real label_sum);
               influence1 = influence0 + (case reverse_edge_val of None \<Rightarrow> 0
                  | Some r \<Rightarrow> (r * real size_i) / real label_sum);
               influence = influence1 * influence_coef;
               size_impact = size_coef * (1 / (1 + real size_i) + 1 / (1 + real size_j))
           in Inr (value_proximity + extreme_proximity + influence + size_impact))"

type_synonym similarity =
  "real \<Rightarrow> real \<Rightarrow> nat \<Rightarrow> nat \<Rightarrow> real option \<Rightarrow> real option \<Rightarrow> error + real"

text \<open>The function with the default coefficients 1, 0.1, 1 and 10.\<close>

definition default_similarity :: similarity where
  "default_similarity vi vj size_i size_j edge_val reverse_edge_val =
     default_similarity_function vi vj size_i size_j edge_val reverse_edge_val 1 (1 / 10) 1 10"

text \<open>
  \<^verbatim>\<open>compute_similarity\<close>; the similarity function in force (the instance attribute or the
  argument) is the parameter \<open>func\<close>.
\<close>

definition compute_similarity :: "similarity \<Rightarrow> graph \<Rightarrow> int \<Rightarrow> int \<Rightarrow> error + real" where
  "compute_similarity func g i j =
     (if \<not> has_edge g i j \<and> \<not> has_edge g j i then Inr (- 2)
      else case node_value g i of Inl e \<Rightarrow> Inl e | Inr vi \<Rightarrow>
           (case node_value g j of Inl e \<Rightarrow> Inl e | Inr vj \<Rightarrow>
           (case node_size g i of Inl e \<Rightarrow> Inl e | Inr size_i \<Rightarrow>
           (case node_size g j of Inl e \<Rightarrow> Inl e | Inr size_j \<Rightarrow>
              func vi vj size_i size_j (edge_value g i j) (edge_value g j i)))))"

subsection \<open>Sequencing of statements that can raise\<close>

text \<open>An exception raised while the graph is \<open>g\<close> leaves the graph as \<open>g\<close>.\<close>

definition at_graph :: "graph \<Rightarrow> error + graph \<Rightarrow> outcome" where
  "at_graph g r = (case r of Inl e \<Rightarrow> Inl (e, g) | Inr g' \<Rightarrow> Inr g')"

definition and_then :: "outcome \<Rightarrow> (graph \<Rightarrow> outcome) \<Rightarrow> outcome" where
  "and_then r f = (case r of Inl x \<Rightarrow> Inl x | Inr g \<Rightarrow> f g)"

text \<open>A \<^verbatim>\<open>for\<close> loop over a list fixed before the loop starts.\<close>

fun for_each :: "('a \<Rightarrow> graph \<Rightarrow> outcome) \<Rightarrow> 'a list \<Rightarrow> graph \<Rightarrow> outcome" where
  "for_each body [] g = Inr g"
| "for_each body (x # xs) g = and_then (body x g) (for_each body xs)"

subsection \<open>Floating-point arithmetic\<close>

text \<open>
  The values of the nodes and of the edges are Python floats, and the result of a float
  operation is the exact result rounded to a double. The operations of the merges that
  round take the rounding as their first argument \<open>rnd\<close>, applied to the exact result of
  every \<^verbatim>\<open>+\<close>, \<^verbatim>\<open>*\<close> and \<^verbatim>\<open>/\<close> on values; \<^verbatim>\<open>min\<close>, \<^verbatim>\<open>max\<close> and the comparisons do not
  round, and the lengths of the labels are integers. With the rounding \<open>\<lambda>x. x\<close> the
  arithmetic is exact.
\<close>

type_synonym rounding = "real \<Rightarrow> real"

text \<open>Rounding to the nearest integer, a tie to the even one.\<close>

definition round_half_even :: "real \<Rightarrow> int" where
  "round_half_even x =
     (let n = \<lfloor>x\<rfloor>; r = x - of_int n
      in if r < 1 / 2 then n else if 1 / 2 < r then n + 1 else if even n then n else n + 1)"

text \<open>The number of binary digits of a natural number.\<close>

fun bit_length :: "nat \<Rightarrow> nat" where
  "bit_length n = (if n = 0 then 0 else Suc (bit_length (n div 2)))"

declare bit_length.simps [simp del]

text \<open>The exponent \<open>e\<close> of a positive number \<open>x\<close>: \<open>2\<^sup>e \<le> x < 2\<^sup>e\<^sup>+\<^sup>1\<close>.\<close>

definition binary_exponent :: "real \<Rightarrow> int" where
  "binary_exponent x =
     (if 1 \<le> x then int (bit_length (nat \<lfloor>x\<rfloor>)) - 1
      else - int (bit_length (nat (\<lceil>1 / x\<rceil> - 1))))"

text \<open>The distance of two neighbouring doubles of exponent \<open>e\<close>: \<open>2\<^sup>e\<^sup>-\<^sup>5\<^sup>2\<close>.\<close>

definition quantum :: "int \<Rightarrow> real" where
  "quantum e = (if 52 \<le> e then 2 ^ nat (e - 52) else 1 / 2 ^ nat (52 - e))"

text \<open>
  The rounding of IEEE 754 binary64, which CPython's \<^verbatim>\<open>float\<close> uses: to the nearest number
  with 53 significant binary digits, a tie to the even one, with the fixed quantum of the
  subnormal numbers below \<open>2\<^sup>-\<^sup>1\<^sup>0\<^sup>2\<^sup>2\<close>. A result beyond the greatest double, which Python makes
  \<^verbatim>\<open>inf\<close>, has no counterpart here.
\<close>

definition round_double :: rounding where
  "round_double x =
     (if x = 0 then 0
      else (let q = quantum (max (binary_exponent \<bar>x\<bar>) (- 1022))
            in sgn x * (of_int (round_half_even (\<bar>x\<bar> / q)) * q)))"

subsection \<open>Merging two nodes\<close>

text \<open>\<^verbatim>\<open>self[u][v]['value'] = x\<close> on an existing edge.\<close>

definition set_edge_value :: "graph \<Rightarrow> int \<Rightarrow> int \<Rightarrow> real \<Rightarrow> graph" where
  "set_edge_value g u v x = g\<lparr>edges := AList.update (u, v) x (edges g)\<rparr>"

text \<open>
  The body of the loop \<^verbatim>\<open># Reconnect edges\<close> of \<^verbatim>\<open>merge_nodes\<close> for one entry \<open>(u, v)\<close> of
  the snapshot of the edges: first the branch \<^verbatim>\<open>if u == i or u == j\<close>, then the branch
  \<^verbatim>\<open>if v == i or v == j\<close>. The value is read from the graph as it is at that moment
  (\<^verbatim>\<open>self[u][v]['value']\<close>). The test \<^verbatim>\<open>has_edge(new_node, v)\<close> and the read that follows it
  are one \<open>case\<close>.
\<close>

definition reconnect_source_rnd ::
  "rounding \<Rightarrow> int \<Rightarrow> int \<Rightarrow> int \<Rightarrow> int \<Rightarrow> int \<Rightarrow> graph \<Rightarrow> outcome" where
  "reconnect_source_rnd rnd i j new_node u v g =
     (if u = i \<or> u = j then
        and_then
          (if v \<noteq> i \<and> v \<noteq> j then
             (case edge_value g u v of
                None \<Rightarrow> Inl (KeyError, g)
              | Some val \<Rightarrow>
                  Inr (case edge_value g new_node v of
                         Some old \<Rightarrow> set_edge_value g new_node v (rnd (old + val))
                       | None \<Rightarrow> add_edge g new_node v val))
           else Inr g)
          (\<lambda>g1. if has_edge g1 u v then at_graph g1 (remove_edge g1 u v) else Inr g1)
      else Inr g)"

abbreviation reconnect_source ::
  "int \<Rightarrow> int \<Rightarrow> int \<Rightarrow> int \<Rightarrow> int \<Rightarrow> graph \<Rightarrow> outcome" where
  "reconnect_source \<equiv> reconnect_source_rnd (\<lambda>x. x)"

definition reconnect_target_rnd ::
  "rounding \<Rightarrow> int \<Rightarrow> int \<Rightarrow> int \<Rightarrow> int \<Rightarrow> int \<Rightarrow> graph \<Rightarrow> outcome" where
  "reconnect_target_rnd rnd i j new_node u v g =
     (if v = i \<or> v = j then
        and_then
          (if u \<noteq> i \<and> u \<noteq> j then
             (case edge_value g u v of
                None \<Rightarrow> Inl (KeyError, g)
              | Some val \<Rightarrow>
                  Inr (case edge_value g u new_node of
                         Some old \<Rightarrow> set_edge_value g u new_node (rnd (old + val))
                       | None \<Rightarrow> add_edge g u new_node val))
           else Inr g)
          (\<lambda>g1. if has_edge g1 u v then at_graph g1 (remove_edge g1 u v) else Inr g1)
      else Inr g)"

abbreviation reconnect_target ::
  "int \<Rightarrow> int \<Rightarrow> int \<Rightarrow> int \<Rightarrow> int \<Rightarrow> graph \<Rightarrow> outcome" where
  "reconnect_target \<equiv> reconnect_target_rnd (\<lambda>x. x)"

definition reconnect_rnd ::
  "rounding \<Rightarrow> int \<Rightarrow> int \<Rightarrow> int \<Rightarrow> int \<times> int \<times> real \<Rightarrow> graph \<Rightarrow> outcome" where
  "reconnect_rnd rnd i j new_node e g =
     and_then (reconnect_source_rnd rnd i j new_node (fst e) (fst (snd e)) g)
              (reconnect_target_rnd rnd i j new_node (fst e) (fst (snd e)))"

abbreviation reconnect :: "int \<Rightarrow> int \<Rightarrow> int \<Rightarrow> int \<times> int \<times> real \<Rightarrow> graph \<Rightarrow> outcome" where
  "reconnect \<equiv> reconnect_rnd (\<lambda>x. x)"

text \<open>
  \<^verbatim>\<open>merge_nodes\<close>. The reads of the two nodes raise \<^verbatim>\<open>KeyError\<close> before anything is
  changed, the division raises when both labels are empty, and the second
  \<^verbatim>\<open>remove_node\<close> raises when \<open>i = j\<close>.
\<close>

definition merge_nodes_rnd :: "rounding \<Rightarrow> graph \<Rightarrow> int \<Rightarrow> int \<Rightarrow> outcome" where
  "merge_nodes_rnd rnd g i j =
     (case node_attrs g i of None \<Rightarrow> Inl (KeyError, g) | Some ai \<Rightarrow>
      (case node_attrs g j of None \<Rightarrow> Inl (KeyError, g) | Some aj \<Rightarrow>
      (case nvalue ai of None \<Rightarrow> Inl (KeyError, g) | Some vi \<Rightarrow>
      (case nvalue aj of None \<Rightarrow> Inl (KeyError, g) | Some vj \<Rightarrow>
         (let label_i = get_label i ai;
              label_j = get_label j aj;
              new_label = label_i @ label_j;
              min_v = min (get_min_value ai vi) (get_min_value aj vj);
              max_v = max (get_max_value ai vi) (get_max_value aj vj);
              weight_i = length label_i;
              weight_j = length label_j
          in if weight_i + weight_j = 0 then Inl (ZeroDivisionError, g)
             else
               (let new_value = rnd (rnd (rnd (vi * real weight_i) + rnd (vj * real weight_j))
                                       / real (weight_i + weight_j));
                    new_node = Max (set (node_ids g)) + 1;
                    g1 = add_node g new_node
                           \<lparr>nvalue = Some new_value, label = Some new_label,
                            min_value = Some min_v, max_value = Some max_v,
                            importance = None\<rparr>
                in and_then (for_each (reconnect_rnd rnd i j new_node) (edges_data g1) g1)
                     (\<lambda>g2. and_then (at_graph g2 (remove_node g2 i))
                              (\<lambda>g3. at_graph g3 (remove_node g3 j)))))))))"

abbreviation merge_nodes :: "graph \<Rightarrow> int \<Rightarrow> int \<Rightarrow> outcome" where
  "merge_nodes \<equiv> merge_nodes_rnd (\<lambda>x. x)"

subsection \<open>One iteration of the coarsening\<close>

text \<open>\<^verbatim>\<open>itertools.combinations(xs, 2)\<close>.\<close>

fun combinations2 :: "'a list \<Rightarrow> ('a \<times> 'a) list" where
  "combinations2 [] = []"
| "combinations2 (x # xs) = map (Pair x) xs @ combinations2 xs"

text \<open>
  The search loop of \<^verbatim>\<open>simplify_graph_one_iteration\<close>, with \<^verbatim>\<open>max_similarity\<close> and
  \<^verbatim>\<open>pair\<close> as accumulators; the comparison is strict.
\<close>

fun find_pair ::
  "similarity \<Rightarrow> graph \<Rightarrow> (int \<times> int) list \<Rightarrow> real \<Rightarrow> (int \<times> int) option
   \<Rightarrow> error + (int \<times> int) option" where
  "find_pair func g [] max_similarity pair = Inr pair"
| "find_pair func g (p # ps) max_similarity pair =
     (case compute_similarity func g (fst p) (snd p) of
        Inl e \<Rightarrow> Inl e
      | Inr s \<Rightarrow>
          if s > max_similarity then find_pair func g ps s (Some p)
          else find_pair func g ps max_similarity pair)"

text \<open>The loop \<^verbatim>\<open>for i in self.nodes: self.nodes[i]['label'] = [i]\<close>.\<close>

definition init_labels :: "graph \<Rightarrow> graph" where
  "init_labels g = g\<lparr>nodes := map (\<lambda>p. (fst p, (snd p)\<lparr>label := Some [fst p]\<rparr>)) (nodes g)\<rparr>"

text \<open>
  \<^verbatim>\<open>simplify_graph_one_iteration\<close>. \<^verbatim>\<open>next(iter(self.nodes))\<close> raises \<^verbatim>\<open>StopIteration\<close> on
  a graph without nodes; the search starts from \<^verbatim>\<open>max_similarity = -1\<close> and
  \<^verbatim>\<open>pair = None\<close>, and \<^verbatim>\<open>if pair:\<close> guards the merge.
\<close>

definition simplify_graph_one_iteration :: "similarity \<Rightarrow> graph \<Rightarrow> outcome" where
  "simplify_graph_one_iteration func g =
     (case nodes g of
        [] \<Rightarrow> Inl (StopIteration, g)
      | first # _ \<Rightarrow>
          (let g1 = (if label (snd first) = None then init_labels g else g)
           in if length (nodes g1) \<le> 1 then Inr g1
              else (case find_pair func g1 (combinations2 (node_ids g1)) (- 1) None of
                      Inl e \<Rightarrow> Inl (e, g1)
                    | Inr None \<Rightarrow> Inr g1
                    | Inr (Some p) \<Rightarrow> merge_nodes g1 (fst p) (snd p))))"

subsection \<open>The dynamics step\<close>

text \<open>The inner loop over the predecessors \<open>j\<close> of \<open>i\<close>, with \<open>vi\<close> as accumulator.\<close>

fun add_influences :: "graph \<Rightarrow> real \<Rightarrow> int \<Rightarrow> int list \<Rightarrow> real \<Rightarrow> error + real" where
  "add_influences g t i [] vi = Inr vi"
| "add_influences g t i (j # js) vi =
     (case edge_value g j i of
        None \<Rightarrow> Inl KeyError
      | Some pij \<Rightarrow>
          (case node_value g j of
             Inl e \<Rightarrow> Inl e
           | Inr vj \<Rightarrow> add_influences g t i js (vi + pij * vj * t)))"

text \<open>The first loop of \<^verbatim>\<open>dynamics_step\<close>: it fills \<^verbatim>\<open>updated_values\<close> and changes nothing.\<close>

fun updated_values ::
  "graph \<Rightarrow> real \<Rightarrow> int list \<Rightarrow> (int \<times> real) list \<Rightarrow> error + (int \<times> real) list" where
  "updated_values g t [] acc = Inr acc"
| "updated_values g t (i # is) acc =
     (case node_value g i of
        Inl e \<Rightarrow> Inl e
      | Inr vi \<Rightarrow>
          (case add_influences g t i (predecessors g i) vi of
             Inl e \<Rightarrow> Inl e
           | Inr vi' \<Rightarrow>
               updated_values g t is (AList.update i (max 0 (min vi' 1)) acc)))"

text \<open>\<^verbatim>\<open>self.nodes[i]['value'] = vi\<close>.\<close>

definition set_node_value :: "int \<times> real \<Rightarrow> graph \<Rightarrow> outcome" where
  "set_node_value iv g =
     (case node_attrs g (fst iv) of
        None \<Rightarrow> Inl (KeyError, g)
      | Some a \<Rightarrow>
          Inr (g\<lparr>nodes := AList.update (fst iv) (a\<lparr>nvalue := Some (snd iv)\<rparr>) (nodes g)\<rparr>))"

definition dynamics_step :: "graph \<Rightarrow> real \<Rightarrow> outcome" where
  "dynamics_step g t =
     (case updated_values g t (node_ids g) [] of
        Inl e \<Rightarrow> Inl (e, g)
      | Inr ups \<Rightarrow> for_each set_node_value ups g)"

subsection \<open>Merging clusters\<close>

text \<open>
  The argument of \<^verbatim>\<open>merge_clusters\<close>. A list holds the clusters, each one the list of its
  node ids in the order in which Python iterates the set (or the list: \<^verbatim>\<open>find_clusters\<close>
  returns lists). A dictionary holds, under each key, either something the code can
  iterate (\<open>OldIds\<close>, the form the code expects: new id to old ids) or an integer
  (\<open>NewId\<close>, the form the docstring describes: old id to new id), on which the inner
  \<^verbatim>\<open>for\<close> raises \<^verbatim>\<open>TypeError\<close>. Anything else is \<open>OtherArg\<close>.
\<close>

datatype dict_value = OldIds "int list" | NewId int

datatype clusters_arg =
  ClusterList "int list list"
  | ClusterDict "(int \<times> dict_value) list"
  | OtherArg

type_synonym id_mapping = "(int \<times> int) list"

text \<open>\<^verbatim>\<open>id_mapping.get(n, n)\<close>.\<close>

definition mapped :: "id_mapping \<Rightarrow> int \<Rightarrow> int" where
  "mapped id_mapping n = (case map_of id_mapping n of None \<Rightarrow> n | Some m \<Rightarrow> m)"

text \<open>
  The dictionary branch. \<^verbatim>\<open>set(id_mapping.values())\<close> and the set of the old ids of one new
  id are iterated in an order Python does not specify; the model takes the new ids in the
  order of their first occurrence and the old ids in the order of \<^verbatim>\<open>id_mapping\<close>. The
  order decides the order of the ids in a merged label, which of two edge values written
  to one pair is the last, and which cluster is met first when more than one raises.
\<close>

fun dict_id_mapping :: "(int \<times> dict_value) list \<Rightarrow> id_mapping \<Rightarrow> error + id_mapping" where
  "dict_id_mapping [] m = Inr m"
| "dict_id_mapping ((new_id, OldIds old_ids) # rest) m =
     dict_id_mapping rest (fold (\<lambda>old_id. AList.update old_id new_id) old_ids m)"
| "dict_id_mapping ((new_id, NewId n) # rest) m = Inl TypeError"

definition dict_clusters_list :: "id_mapping \<Rightarrow> int list list" where
  "dict_clusters_list m =
     map (\<lambda>new_id. map fst (filter (\<lambda>p. snd p = new_id) m)) (remdups (map snd m))"

text \<open>
  The list branch: the inner loop with its assertion, and the loop over
  \<^verbatim>\<open>enumerate(clusters)\<close>, the new id of a cluster being \<^verbatim>\<open>new_id_start + i\<close>.
\<close>

fun assign_cluster :: "graph \<Rightarrow> int \<Rightarrow> int list \<Rightarrow> id_mapping \<Rightarrow> error + id_mapping" where
  "assign_cluster g new_id [] m = Inr m"
| "assign_cluster g new_id (node_id # rest) m =
     (if has_node g node_id \<and> map_of m node_id = None
      then assign_cluster g new_id rest (AList.update node_id new_id m)
      else Inl AssertionError)"

fun list_id_mapping :: "graph \<Rightarrow> int \<Rightarrow> int list list \<Rightarrow> id_mapping \<Rightarrow> error + id_mapping" where
  "list_id_mapping g new_id [] m = Inr m"
| "list_id_mapping g new_id (cluster # rest) m =
     (case assign_cluster g new_id cluster m of
        Inl e \<Rightarrow> Inl e
      | Inr m' \<Rightarrow> list_id_mapping g (new_id + 1) rest m')"

text \<open>
  The first part of \<^verbatim>\<open>merge_clusters\<close>: \<^verbatim>\<open>id_mapping\<close> and \<^verbatim>\<open>clusters_list\<close>. \<^verbatim>\<open>max(self.nodes)\<close>
  raises \<^verbatim>\<open>ValueError\<close> on a graph without nodes.
\<close>

definition cluster_mapping :: "graph \<Rightarrow> clusters_arg \<Rightarrow> error + id_mapping \<times> int list list" where
  "cluster_mapping g clusters =
     (case clusters of
        ClusterDict d \<Rightarrow>
          (case dict_id_mapping d [] of
             Inl e \<Rightarrow> Inl e
           | Inr m \<Rightarrow> Inr (m, dict_clusters_list m))
      | ClusterList cs \<Rightarrow>
          (if nodes g = [] then Inl ValueError
           else (case list_id_mapping g (Max (set (node_ids g)) + 1) cs [] of
                   Inl e \<Rightarrow> Inl e
                 | Inr m \<Rightarrow> Inr (m, cs)))
      | OtherArg \<Rightarrow> Inl ValueError)"

text \<open>
  The accumulators of the loop over the nodes of one cluster. \<open>acc_min\<close> and \<open>acc_max\<close>
  start as \<^verbatim>\<open>float('inf')\<close> and \<^verbatim>\<open>float('-inf')\<close>, here \<open>None\<close>; a cluster that reaches
  the loop has a first node, so the value stored in the new node is never infinite.
\<close>

record cluster_acc =
  labels :: "int list"
  acc_importance :: real
  total_value :: real
  total_weight :: nat
  acc_min :: "real option"
  acc_max :: "real option"

definition initial_acc :: cluster_acc where
  "initial_acc = \<lparr>labels = [], acc_importance = 0, total_value = 0, total_weight = 0,
     acc_min = None, acc_max = None\<rparr>"

definition accumulate_node_rnd ::
  "rounding \<Rightarrow> int \<Rightarrow> attrs \<Rightarrow> cluster_acc \<Rightarrow> cluster_acc" where
  "accumulate_node_rnd rnd node_id node acc =
     (let val = (case nvalue node of None \<Rightarrow> 0 | Some x \<Rightarrow> x);
          weight = length (get_label node_id node)
      in \<lparr>labels = labels acc @ get_label node_id node,
          acc_importance = rnd (acc_importance acc
             + (case importance node of None \<Rightarrow> 0 | Some x \<Rightarrow> x)),
          total_value = rnd (total_value acc + rnd (val * real weight)),
          total_weight = total_weight acc + weight,
          acc_min = (case acc_min acc of
                       None \<Rightarrow> Some (get_min_value node val)
                     | Some m \<Rightarrow> Some (min m (get_min_value node val))),
          acc_max = (case acc_max acc of
                       None \<Rightarrow> Some (get_max_value node val)
                     | Some m \<Rightarrow> Some (max m (get_max_value node val)))\<rparr>)"

abbreviation accumulate_node :: "int \<Rightarrow> attrs \<Rightarrow> cluster_acc \<Rightarrow> cluster_acc" where
  "accumulate_node \<equiv> accumulate_node_rnd (\<lambda>x. x)"

fun accumulate_rnd ::
  "rounding \<Rightarrow> graph \<Rightarrow> int list \<Rightarrow> cluster_acc \<Rightarrow> error + cluster_acc" where
  "accumulate_rnd rnd g [] acc = Inr acc"
| "accumulate_rnd rnd g (node_id # rest) acc =
     (case node_attrs g node_id of
        None \<Rightarrow> Inl KeyError
      | Some node \<Rightarrow> accumulate_rnd rnd g rest (accumulate_node_rnd rnd node_id node acc))"

abbreviation accumulate :: "graph \<Rightarrow> int list \<Rightarrow> cluster_acc \<Rightarrow> error + cluster_acc" where
  "accumulate \<equiv> accumulate_rnd (\<lambda>x. x)"

text \<open>
  The body of the loop \<^verbatim>\<open># Creating New Nodes\<close> for one cluster:
  \<^verbatim>\<open>next(iter(cluster))\<close> raises \<^verbatim>\<open>StopIteration\<close> on an empty cluster.
\<close>

definition create_cluster_node_rnd ::
  "rounding \<Rightarrow> id_mapping \<Rightarrow> int list \<Rightarrow> graph \<Rightarrow> outcome" where
  "create_cluster_node_rnd rnd id_mapping cluster g =
     (case cluster of
        [] \<Rightarrow> Inl (StopIteration, g)
      | first # _ \<Rightarrow>
          (case map_of id_mapping first of
             None \<Rightarrow> Inl (KeyError, g)
           | Some new_id \<Rightarrow>
               (case accumulate_rnd rnd g cluster initial_acc of
                  Inl e \<Rightarrow> Inl (e, g)
                | Inr acc \<Rightarrow>
                    Inr (add_node g new_id
                          \<lparr>nvalue = Some (if total_weight acc > 0
                                           then rnd (total_value acc / real (total_weight acc))
                                           else 0),
                           label = Some (labels acc),
                           min_value = acc_min acc,
                           max_value = acc_max acc,
                           importance = Some (acc_importance acc)\<rparr>))))"

abbreviation create_cluster_node :: "id_mapping \<Rightarrow> int list \<Rightarrow> graph \<Rightarrow> outcome" where
  "create_cluster_node \<equiv> create_cluster_node_rnd (\<lambda>x. x)"

text \<open>
  The bodies of the two inner loops of \<^verbatim>\<open># Reassigning Edges\<close>. Each loop iterates the
  live adjacency dictionary of the old node; \<^verbatim>\<open>add_edge\<close> puts a new key into that same
  dictionary exactly when the new id is the old node itself and the edge is new, and
  Python then raises \<^verbatim>\<open>RuntimeError\<close> when the loop asks for the next key. \<^verbatim>\<open>add_edge\<close>
  overwrites the value of an edge that exists.
\<close>

definition rehome_successor :: "id_mapping \<Rightarrow> int \<Rightarrow> int \<Rightarrow> int \<Rightarrow> graph \<Rightarrow> outcome" where
  "rehome_successor id_mapping old_node_id new_id successor g =
     (let mapped_successor = mapped id_mapping successor
      in if mapped_successor \<noteq> new_id then
           (case edge_value g old_node_id successor of
              None \<Rightarrow> Inl (KeyError, g)
            | Some val \<Rightarrow>
                (let g1 = add_edge g new_id mapped_successor val
                 in if new_id = old_node_id \<and> \<not> has_edge g new_id mapped_successor
                    then Inl (RuntimeError, g1) else Inr g1))
         else Inr g)"

definition rehome_predecessor :: "id_mapping \<Rightarrow> int \<Rightarrow> int \<Rightarrow> int \<Rightarrow> graph \<Rightarrow> outcome" where
  "rehome_predecessor id_mapping old_node_id new_id predecessor g =
     (let mapped_predecessor = mapped id_mapping predecessor
      in if mapped_predecessor \<noteq> new_id then
           (case edge_value g predecessor old_node_id of
              None \<Rightarrow> Inl (KeyError, g)
            | Some val \<Rightarrow>
                (let g1 = add_edge g mapped_predecessor new_id val
                 in if new_id = old_node_id \<and> \<not> has_edge g mapped_predecessor new_id
                    then Inl (RuntimeError, g1) else Inr g1))
         else Inr g)"

text \<open>
  The body of the outer loop for one item of \<^verbatim>\<open>id_mapping\<close>; \<^verbatim>\<open>successors\<close> and
  \<^verbatim>\<open>predecessors\<close> raise \<^verbatim>\<open>NetworkXError\<close> for a node that is not in the graph.
\<close>

definition reassign_edges :: "id_mapping \<Rightarrow> int \<times> int \<Rightarrow> graph \<Rightarrow> outcome" where
  "reassign_edges id_mapping item g =
     (let old_node_id = fst item; new_id = snd item
      in if \<not> has_node g old_node_id then Inl (NetworkXError, g)
         else and_then
                (for_each (rehome_successor id_mapping old_node_id new_id)
                   (successors g old_node_id) g)
                (\<lambda>g1. if \<not> has_node g1 old_node_id then Inl (NetworkXError, g1)
                       else and_then
                              (for_each (rehome_predecessor id_mapping old_node_id new_id)
                                 (predecessors g1 old_node_id) g1)
                              (\<lambda>g2. at_graph g2 (remove_node g2 old_node_id))))"

definition merge_clusters_rnd :: "rounding \<Rightarrow> graph \<Rightarrow> clusters_arg \<Rightarrow> outcome" where
  "merge_clusters_rnd rnd g clusters =
     (case cluster_mapping g clusters of
        Inl e \<Rightarrow> Inl (e, g)
      | Inr (id_mapping, clusters_list) \<Rightarrow>
          and_then (for_each (create_cluster_node_rnd rnd id_mapping) clusters_list g)
                   (for_each (reassign_edges id_mapping) id_mapping))"

abbreviation merge_clusters :: "graph \<Rightarrow> clusters_arg \<Rightarrow> outcome" where
  "merge_clusters \<equiv> merge_clusters_rnd (\<lambda>x. x)"

subsection \<open>Merging by intervals\<close>

text \<open>
  \<^verbatim>\<open>merge_by_intervals\<close>: the nodes whose value lies in \<^verbatim>\<open>[lower, upper)\<close>, for each pair of
  neighbouring bounds; the clusters that are not empty go to \<^verbatim>\<open>merge_clusters\<close> as a
  list. A missing value counts as 0 (\<^verbatim>\<open>data.get('value', 0)\<close>). The code makes a set of each
  cluster before the call; the model hands the cluster over in the order of the node
  dictionary.
\<close>

definition interval_cluster :: "graph \<Rightarrow> real \<times> real \<Rightarrow> int list" where
  "interval_cluster g b =
     map fst (filter (\<lambda>p. (let val = (case nvalue (snd p) of None \<Rightarrow> 0 | Some x \<Rightarrow> x)
                            in fst b \<le> val \<and> val < snd b)) (nodes g))"

definition merge_by_intervals_rnd :: "rounding \<Rightarrow> graph \<Rightarrow> real list \<Rightarrow> outcome" where
  "merge_by_intervals_rnd rnd g intervals =
     (if \<not> list_all (\<lambda>val. 0 \<le> val \<and> val \<le> 1) intervals then Inl (ValueError, g)
      else if intervals = [] then Inl (ValueError, g)
      else
        (let bounds = [0] @ sort intervals @ [1];
             clusters = filter (\<lambda>c. c \<noteq> [])
                          (map (interval_cluster g) (zip bounds (tl bounds)))
         in if clusters \<noteq> [] then merge_clusters_rnd rnd g (ClusterList clusters)
            else Inr g))"

abbreviation merge_by_intervals :: "graph \<Rightarrow> real list \<Rightarrow> outcome" where
  "merge_by_intervals \<equiv> merge_by_intervals_rnd (\<lambda>x. x)"

subsection \<open>Well-formed graphs\<close>

text \<open>
  What a \<^verbatim>\<open>networkx.DiGraph\<close> guarantees by construction: a node id is a key of the node
  dictionary once, an ordered pair carries one edge, and both ends of an edge are nodes.
\<close>

definition wf_graph :: "graph \<Rightarrow> bool" where
  "wf_graph g \<longleftrightarrow>
     distinct (map fst (nodes g)) \<and> distinct (map fst (edges g)) \<and>
     (\<forall>e \<in> set (edges g). fst (fst e) \<in> set (node_ids g) \<and> snd (fst e) \<in> set (node_ids g))"

subsection \<open>The result of a dynamics step, as the specification words it\<close>

text \<open>
  The value \<open>clip(value_i + t * sum over the predecessors j of weight(j, i) * value_j, 0, 1)\<close>,
  every value read in the graph before the step.
\<close>

definition clip :: "real \<Rightarrow> real" where
  "clip x = max 0 (min x 1)"

definition value_of :: "graph \<Rightarrow> int \<Rightarrow> real" where
  "value_of g n = (case node_value g n of Inl e \<Rightarrow> 0 | Inr x \<Rightarrow> x)"

definition weight_of :: "graph \<Rightarrow> int \<Rightarrow> int \<Rightarrow> real" where
  "weight_of g u v = (case edge_value g u v of None \<Rightarrow> 0 | Some w \<Rightarrow> w)"

definition spec_step_value :: "graph \<Rightarrow> real \<Rightarrow> int \<Rightarrow> real" where
  "spec_step_value g t i =
     clip (value_of g i + t * (\<Sum>j\<leftarrow>predecessors g i. weight_of g j i * value_of g j))"

definition has_value :: "graph \<Rightarrow> int \<Rightarrow> bool" where
  "has_value g n = (case node_value g n of Inl e \<Rightarrow> False | Inr x \<Rightarrow> True)"

text \<open>Node 0 with value 0.5 and an incoming edge of weight 0.3 from node 1 with value 1.\<close>

definition step_example :: graph where
  "step_example =
     add_edge (add_node (add_node empty_graph 0 (no_attrs\<lparr>nvalue := Some (1 / 2)\<rparr>))
                 1 (no_attrs\<lparr>nvalue := Some 1\<rparr>)) 1 0 (3 / 10)"

subsection \<open>Graphs used as examples\<close>

text \<open>Two nodes with the values 0.2 and 0.8, labelled with their own ids, and no edge.\<close>

definition two_isolated_nodes :: graph where
  "two_isolated_nodes =
     add_node (add_node empty_graph 0 (no_attrs\<lparr>nvalue := Some (1 / 5), label := Some [0]\<rparr>))
       1 (no_attrs\<lparr>nvalue := Some (4 / 5), label := Some [1]\<rparr>)"

text \<open>The same two nodes with the edge from 0 to 1 of weight 0.5.\<close>

definition two_linked_nodes :: graph where
  "two_linked_nodes = add_edge two_isolated_nodes 0 1 (1 / 2)"

text \<open>
  The graph as \<^verbatim>\<open>simplify_graph_one_iteration\<close> sees it after its first statement: every
  label is reset to the node's own id when the first node has no label.
\<close>

definition with_labels :: "graph \<Rightarrow> graph" where
  "with_labels g =
     (case nodes g of [] \<Rightarrow> g
      | first # _ \<Rightarrow> if label (snd first) = None then init_labels g else g)"

subsection \<open>The edges a merge of two nodes moves\<close>

text \<open>
  For the entries \<open>es\<close> of a snapshot of the edges: the values of the edges that leave \<open>i\<close>
  or \<open>j\<close> for the node \<open>b\<close>, and of those that reach \<open>i\<close> or \<open>j\<close> from the node \<open>a\<close>, in the
  order of the snapshot.
\<close>

definition edge_key :: "int \<times> int \<times> real \<Rightarrow> int \<times> int" where
  "edge_key e = (fst e, fst (snd e))"

definition moved_out :: "int \<Rightarrow> int \<Rightarrow> (int \<times> int \<times> real) list \<Rightarrow> int \<Rightarrow> real list" where
  "moved_out i j es b =
     map (\<lambda>e. snd (snd e)) (filter (\<lambda>e. (fst e = i \<or> fst e = j) \<and> fst (snd e) = b) es)"

definition moved_in :: "int \<Rightarrow> int \<Rightarrow> (int \<times> int \<times> real) list \<Rightarrow> int \<Rightarrow> real list" where
  "moved_in i j es a =
     map (\<lambda>e. snd (snd e)) (filter (\<lambda>e. (fst (snd e) = i \<or> fst (snd e) = j) \<and> fst e = a) es)"

subsection \<open>Properties of a graph that the merges are to keep\<close>

text \<open>No edge has its source as its target.\<close>

definition no_self_loops :: "graph \<Rightarrow> bool" where
  "no_self_loops g = list_all (\<lambda>e. fst (fst e) \<noteq> snd (fst e)) (edges g)"

text \<open>The nodes 0, 1 and 2, the edge from 0 to 1 and a self-loop on node 2.\<close>

definition loop_example :: graph where
  "loop_example =
     add_edge (add_edge (add_node two_isolated_nodes 2
        (no_attrs\<lparr>nvalue := Some (1 / 2), label := Some [2]\<rparr>)) 0 1 (1 / 2)) 2 2 1"

text \<open>
  The nodes 0, 1 and 2 with the edges from 0 to 2 of weight 1 and from 1 to 2 of weight 2,
  and from 2 to 0 of weight 3 and from 2 to 1 of weight 4.
\<close>

definition fan_example :: graph where
  "fan_example =
     add_edge (add_edge (add_edge (add_edge (add_node two_isolated_nodes 2
        (no_attrs\<lparr>nvalue := Some (1 / 2), label := Some [2]\<rparr>)) 0 2 1) 1 2 2) 2 0 3) 2 1 4"

subsection \<open>The mapping the list branch builds\<close>

text \<open>
  Every node id of the first cluster mapped to \<open>new_id\<close>, of the second to \<open>new_id + 1\<close>,
  and so on, in the order of the clusters.
\<close>

fun list_mapping :: "int \<Rightarrow> int list list \<Rightarrow> id_mapping" where
  "list_mapping new_id [] = []"
| "list_mapping new_id (cluster # rest) =
     map (\<lambda>node_id. (node_id, new_id)) cluster @ list_mapping (new_id + 1) rest"

text \<open>
  A list of clusters is a valid partition of part of the graph when every id it names is
  a node and no id is named twice.
\<close>

definition valid_clusters :: "graph \<Rightarrow> int list list \<Rightarrow> bool" where
  "valid_clusters g cs \<longleftrightarrow> list_all (has_node g) (concat cs) \<and> distinct (concat cs)"

subsection \<open>Labels and bounds of the nodes\<close>

text \<open>The labels of all the nodes of the graph, as one multiset of original ids.\<close>

definition all_labels :: "graph \<Rightarrow> int multiset" where
  "all_labels g = sum_list (map (\<lambda>p. mset (get_label (fst p) (snd p))) (nodes g))"

text \<open>
  A node is bounded when it carries a value that lies between its lower and its upper
  bound (each read with the value as default, as the accessors \<^verbatim>\<open>min_values\<close> and
  \<^verbatim>\<open>max_values\<close> do) and its label is not empty.
\<close>

definition value_in_bounds :: "attrs \<Rightarrow> bool" where
  "value_in_bounds a =
     (case nvalue a of
        None \<Rightarrow> False
      | Some v \<Rightarrow> get_min_value a v \<le> v \<and> v \<le> get_max_value a v)"

definition bounded_node :: "int \<times> attrs \<Rightarrow> bool" where
  "bounded_node p \<longleftrightarrow> value_in_bounds (snd p) \<and> get_label (fst p) (snd p) \<noteq> []"

definition bounded_graph :: "graph \<Rightarrow> bool" where
  "bounded_graph g = list_all bounded_node (nodes g)"

text \<open>Every node carries a value within its bounds; labels may be empty.\<close>

definition values_in_bounds :: "graph \<Rightarrow> bool" where
  "values_in_bounds g = list_all (\<lambda>p. value_in_bounds (snd p)) (nodes g)"

subsection \<open>Sequences of merges\<close>

datatype merge_op = MergeNodes int int | MergeClusters clusters_arg

fun apply_merge_rnd :: "rounding \<Rightarrow> merge_op \<Rightarrow> graph \<Rightarrow> outcome" where
  "apply_merge_rnd rnd (MergeNodes i j) g = merge_nodes_rnd rnd g i j"
| "apply_merge_rnd rnd (MergeClusters clusters) g = merge_clusters_rnd rnd g clusters"

abbreviation apply_merge :: "merge_op \<Rightarrow> graph \<Rightarrow> outcome" where
  "apply_merge \<equiv> apply_merge_rnd (\<lambda>x. x)"

text \<open>
  The new ids of a call of \<^verbatim>\<open>merge_clusters\<close> are fresh when none of them is a node of the
  graph or one of the ids to be merged. The list branch allocates them above the
  greatest id; the dictionary branch takes them from the caller.
\<close>

definition fresh_new_ids :: "graph \<Rightarrow> clusters_arg \<Rightarrow> bool" where
  "fresh_new_ids g clusters =
     (case cluster_mapping g clusters of
        Inl e \<Rightarrow> True
      | Inr mc \<Rightarrow>
          list_all (\<lambda>p. \<not> has_node g (snd p) \<and> snd p \<notin> fst ` set (fst mc)) (fst mc))"

text \<open>The same for every \<^verbatim>\<open>merge_clusters\<close> of a sequence, each in the graph it is run on.\<close>

fun fresh_along :: "merge_op list \<Rightarrow> graph \<Rightarrow> bool" where
  "fresh_along [] g = True"
| "fresh_along (MergeNodes i j # ops) g =
     (case merge_nodes g i j of Inl x \<Rightarrow> True | Inr h \<Rightarrow> fresh_along ops h)"
| "fresh_along (MergeClusters clusters # ops) g =
     (fresh_new_ids g clusters \<and>
      (case merge_clusters g clusters of Inl x \<Rightarrow> True | Inr h \<Rightarrow> fresh_along ops h))"

text \<open>
  The merges that allocate their new ids themselves: \<^verbatim>\<open>merge_nodes\<close>, and \<^verbatim>\<open>merge_clusters\<close>
  called with a list.
\<close>

fun list_form :: "merge_op \<Rightarrow> bool" where
  "list_form (MergeNodes i j) = True"
| "list_form (MergeClusters (ClusterList cs)) = True"
| "list_form (MergeClusters (ClusterDict d)) = False"
| "list_form (MergeClusters OtherArg) = False"

subsection \<open>The node a cluster becomes\<close>

text \<open>
  The accumulators after the loop over the nodes of a cluster, and the attributes of the
  new node, for a cluster whose node ids are all nodes of the graph.
\<close>

definition accumulated_rnd ::
  "rounding \<Rightarrow> graph \<Rightarrow> int list \<Rightarrow> cluster_acc \<Rightarrow> cluster_acc" where
  "accumulated_rnd rnd g cluster acc =
     fold (\<lambda>n. accumulate_node_rnd rnd n
                 (case node_attrs g n of None \<Rightarrow> no_attrs | Some a \<Rightarrow> a))
       cluster acc"

abbreviation accumulated :: "graph \<Rightarrow> int list \<Rightarrow> cluster_acc \<Rightarrow> cluster_acc" where
  "accumulated \<equiv> accumulated_rnd (\<lambda>x. x)"

definition cluster_attrs_rnd :: "rounding \<Rightarrow> graph \<Rightarrow> int list \<Rightarrow> attrs" where
  "cluster_attrs_rnd rnd g cluster =
     (let acc = accumulated_rnd rnd g cluster initial_acc
      in \<lparr>nvalue = Some (if total_weight acc > 0
                          then rnd (total_value acc / real (total_weight acc)) else 0),
          label = Some (labels acc),
          min_value = acc_min acc,
          max_value = acc_max acc,
          importance = Some (acc_importance acc)\<rparr>)"

abbreviation cluster_attrs :: "graph \<Rightarrow> int list \<Rightarrow> attrs" where
  "cluster_attrs \<equiv> cluster_attrs_rnd (\<lambda>x. x)"

text \<open>
  What both branches of \<^verbatim>\<open>merge_clusters\<close> guarantee of \<^verbatim>\<open>id_mapping\<close> and \<^verbatim>\<open>clusters_list\<close>:
  an old id is mapped once, the clusters hold exactly the mapped ids, and the ids of one
  cluster are mapped to one new id, different clusters to different new ids.
\<close>

definition partition_of :: "id_mapping \<Rightarrow> int list list \<Rightarrow> int list \<Rightarrow> bool" where
  "partition_of m cl ids \<longleftrightarrow>
     distinct (map fst m) \<and> mset (concat cl) = mset (map fst m) \<and> distinct ids \<and>
     list_all2 (\<lambda>c i. \<forall>n\<in>set c. map_of m n = Some i) cl ids"

text \<open>The attributes and the label a node id has in a graph.\<close>

definition attrs_in :: "graph \<Rightarrow> int \<Rightarrow> attrs" where
  "attrs_in g n = (case node_attrs g n of None \<Rightarrow> no_attrs | Some a \<Rightarrow> a)"

definition label_in :: "graph \<Rightarrow> int \<Rightarrow> int list" where
  "label_in g n = get_label n (attrs_in g n)"

text \<open>
  What the accumulators of a cluster satisfy while every node met is bounded: the weight
  is the length of the label so far, and from the first node on the weight is positive
  and the total value lies between the least lower bound and the greatest upper bound,
  each times the weight.
\<close>

definition acc_invariant :: "cluster_acc \<Rightarrow> bool" where
  "acc_invariant acc \<longleftrightarrow>
     length (labels acc) = total_weight acc \<and>
     (case (acc_min acc, acc_max acc) of
        (Some lo, Some hi) \<Rightarrow>
          0 < total_weight acc \<and> lo * real (total_weight acc) \<le> total_value acc \<and>
          total_value acc \<le> hi * real (total_weight acc)
      | (None, None) \<Rightarrow> total_weight acc = 0 \<and> total_value acc = 0
      | _ \<Rightarrow> False)"

text \<open>One node with value 0.5, bounds 0.5 and 0.5, and the empty label.\<close>

definition empty_label_example :: graph where
  "empty_label_example =
     add_node empty_graph 0
       \<lparr>nvalue = Some (1 / 2), label = Some [], min_value = Some (1 / 2),
        max_value = Some (1 / 2), importance = None\<rparr>"

text \<open>Two merges in a row: the nodes 0 and 1 as one cluster, then the result with node 2.\<close>

definition two_merges :: "merge_op list" where
  "two_merges = [MergeClusters (ClusterList [[0, 1]]), MergeNodes 2 3]"

subsection \<open>Bounds that do not depend on the value\<close>




text \<open>
  The double nearest to 0.1, and a graph of three nodes with that value and both bounds;
  node 1 is merged with node 2, and node 0 with the result.
\<close>

definition tenth :: real where
  "tenth = 3602879701896397 / 36028797018963968"

definition three_tenths :: graph where
  "three_tenths =
     (let a = \<lparr>nvalue = Some tenth, label = None, min_value = Some tenth,
                max_value = Some tenth, importance = None\<rparr>
      in add_node (add_node (add_node empty_graph 0 a) 1 a) 2 a)"


section \<open>Properties\<close>

subsection \<open>The graph primitives\<close>

lemma map_of_filter_fst:
  "map_of (filter (\<lambda>e. Q (fst e)) xs) k = (if Q k then map_of xs k else None)"
  by (induction xs) auto

lemma has_node_iff: "has_node g n \<longleftrightarrow> n \<in> set (node_ids g)"
  by (simp add: has_node_def node_attrs_def node_ids_def map_of_eq_None_iff)

lemma has_node_attrs: "has_node g n \<longleftrightarrow> (\<exists>a. node_attrs g n = Some a)"
  by (simp add: has_node_def)

lemma edges_add_node [simp]: "edges (add_node g n a) = edges g"
  by (simp add: add_node_def)

lemma node_attrs_add_node:
  "node_attrs (add_node g n a) m =
     (if m = n then Some (case node_attrs g n of None \<Rightarrow> a | Some old \<Rightarrow> update_attrs old a)
      else node_attrs g m)"
  by (simp add: add_node_def node_attrs_def update_conv')

lemma node_ids_add_node:
  "node_ids (add_node g n a) = (if n \<in> set (node_ids g) then node_ids g else node_ids g @ [n])"
  by (simp add: add_node_def node_ids_def update_keys)

lemma ensure_node_present [simp]: "has_node g n \<Longrightarrow> ensure_node g n = g"
  by (simp add: ensure_node_def)

lemma edges_ensure_node [simp]: "edges (ensure_node g n) = edges g"
  by (simp add: ensure_node_def)

lemma node_ids_ensure_node:
  "node_ids (ensure_node g n) = (if n \<in> set (node_ids g) then node_ids g else node_ids g @ [n])"
  by (simp add: ensure_node_def has_node_iff) (simp add: node_ids_def)

lemma node_attrs_ensure_node:
  "node_attrs (ensure_node g n) m =
     (if has_node g m then node_attrs g m else if m = n then Some no_attrs else None)"
  by (auto simp add: ensure_node_def has_node_def node_attrs_def map_add_def
        split: option.splits)

lemma nodes_add_edge [simp]:
  "has_node g u \<Longrightarrow> has_node g v \<Longrightarrow> nodes (add_edge g u v w) = nodes g"
  by (simp add: add_edge_def Let_def)

lemma edge_value_add_edge:
  "edge_value (add_edge g u v w) a b = (if a = u \<and> b = v then Some w else edge_value g a b)"
  by (simp add: add_edge_def Let_def edge_value_def update_conv')

lemma node_attrs_add_edge:
  "node_attrs (add_edge g u v w) m =
     (if has_node g m then node_attrs g m
      else if m = u \<or> m = v then Some no_attrs else None)"
  by (auto simp add: add_edge_def Let_def node_attrs_def has_node_def
        node_attrs_ensure_node[unfolded node_attrs_def has_node_def])

lemma set_node_ids_add_edge:
  "set (node_ids (add_edge g u v w)) = set (node_ids g) \<union> {u, v}"
  by (auto simp add: add_edge_def Let_def node_ids_ensure_node
        node_ids_def[of "_\<lparr>edges := _\<rparr>"] node_ids_def[symmetric])


subsection \<open>Symmetry of the similarity\<close>

lemma default_similarity_swap:
  "default_similarity vi vj si sj e r = default_similarity vj vi sj si r e"
  by (cases e; cases r)
     (simp_all add: default_similarity_def default_similarity_function_def Let_def
        min.commute min.left_commute abs_minus_commute add.commute)

lemma node_value_error: "node_value g n = Inl e \<Longrightarrow> e = KeyError"
  by (auto simp add: node_value_def split: option.splits)

lemma node_size_error: "node_size g n = Inl e \<Longrightarrow> e = KeyError"
  by (auto simp add: node_size_def split: option.splits)

text \<open>
  Claim C10. With the default similarity function, the similarity of a pair does not
  depend on the order of the pair: \<open>compute_similarity i j\<close> and \<open>compute_similarity j i\<close>
  return the same score (the sentinel \<open>-2\<close> when no edge joins the two nodes, the formula
  with the two edge values and the two sizes exchanged otherwise), or raise the same
  exception.
\<close>

theorem compute_similarity_symmetric:
  "compute_similarity default_similarity g i j = compute_similarity default_similarity g j i"
proof (cases "\<not> has_edge g i j \<and> \<not> has_edge g j i")
  case True
  then show ?thesis by (simp add: compute_similarity_def)
next
  case False
  then have other: "\<not> (\<not> has_edge g j i \<and> \<not> has_edge g i j)" by blast
  show ?thesis
    using False other
    by (auto simp add: compute_similarity_def split: sum.splits
          dest!: node_value_error node_size_error intro: default_similarity_swap)
qed

subsection \<open>Adding an edge\<close>

text \<open>
  Claim C9, as amended. \<^verbatim>\<open>add_edge(source, target, value)\<close> does not fail when an endpoint
  is absent: it adds every absent endpoint to the graph as a node without attributes and
  leaves the nodes that exist as they are, and it inserts the edge or overwrites its
  value, leaving every other edge as it is.
\<close>

theorem add_edge_adds_missing_nodes:
  "set (node_ids (add_edge g u v w)) = set (node_ids g) \<union> {u, v} \<and>
   node_attrs (add_edge g u v w) n =
     (if has_node g n then node_attrs g n
      else if n = u \<or> n = v then Some no_attrs else None) \<and>
   edge_value (add_edge g u v w) a b = (if a = u \<and> b = v then Some w else edge_value g a b)"
  by (simp add: set_node_ids_add_edge node_attrs_add_edge edge_value_add_edge)

text \<open>
  Claim C9 as stated fails: on the graph without nodes, \<^verbatim>\<open>add_edge(0, 1, 0.5)\<close> returns
  normally, and the graph then has the nodes 0 and 1.
\<close>

theorem add_edge_unknown_node_counterexample:
  "\<not> has_node empty_graph 0 \<and> \<not> has_node empty_graph 1 \<and>
   add_edge empty_graph 0 1 (1 / 2) =
     \<lparr>nodes = [(0, no_attrs), (1, no_attrs)], edges = [((0, 1), 1 / 2)]\<rparr>"
  by (simp add: add_edge_def empty_graph_def ensure_node_def has_node_def node_attrs_def)

subsection \<open>The dynamics step\<close>

lemma node_value_Inr: "node_value g n = Inr x \<longleftrightarrow> (\<exists>a. node_attrs g n = Some a \<and> nvalue a = Some x)"
  by (auto simp add: node_value_def split: option.splits)

lemma has_value_iff: "has_value g n \<longleftrightarrow> (\<exists>x. node_value g n = Inr x)"
  by (simp add: has_value_def split: sum.splits)

lemma add_influences_sum:
  "\<forall>j\<in>set js. has_edge g j i \<and> has_value g j \<Longrightarrow>
   add_influences g t i js vi = Inr (vi + t * (\<Sum>j\<leftarrow>js. weight_of g j i * value_of g j))"
proof (induction js arbitrary: vi)
  case Nil
  then show ?case by simp
next
  case (Cons j js)
  from Cons.prems obtain w x where w: "edge_value g j i = Some w" and x: "node_value g j = Inr x"
    by (auto simp add: has_edge_def has_value_iff)
  have "add_influences g t i (j # js) vi = add_influences g t i js (vi + w * x * t)"
    by (simp add: w x)
  also have "\<dots> = Inr (vi + w * x * t + t * (\<Sum>j\<leftarrow>js. weight_of g j i * value_of g j))"
    using Cons.prems by (intro Cons.IH) simp
  finally show ?case
    by (simp add: w x weight_of_def value_of_def algebra_simps)
qed

lemma predecessors_has_edge: "j \<in> set (predecessors g i) \<Longrightarrow> has_edge g j i"
proof -
  assume "j \<in> set (predecessors g i)"
  then obtain w where "((j, i), w) \<in> set (edges g)"
    by (auto simp add: predecessors_def)
  then have "(j, i) \<in> fst ` set (edges g)" by force
  then show ?thesis
    by (simp add: has_edge_def edge_value_def map_of_eq_None_iff)
qed

lemma predecessors_nodes:
  "wf_graph g \<Longrightarrow> j \<in> set (predecessors g i) \<Longrightarrow> j \<in> set (node_ids g)"
  by (auto simp add: predecessors_def wf_graph_def)

lemma updated_values_fold:
  "wf_graph g \<Longrightarrow> \<forall>n\<in>set (node_ids g). has_value g n \<Longrightarrow> set ns \<subseteq> set (node_ids g) \<Longrightarrow>
   updated_values g t ns acc =
     Inr (fold (\<lambda>i. AList.update i (spec_step_value g t i)) ns acc)"
proof (induction ns arbitrary: acc)
  case Nil
  then show ?case by simp
next
  case (Cons i ns)
  from Cons.prems obtain x where x: "node_value g i = Inr x"
    by (auto simp add: has_value_iff)
  have infl: "add_influences g t i (predecessors g i) x =
      Inr (x + t * (\<Sum>j\<leftarrow>predecessors g i. weight_of g j i * value_of g j))"
    using Cons.prems(1,2)
    by (intro add_influences_sum) (auto dest: predecessors_has_edge predecessors_nodes)
  have "updated_values g t (i # ns) acc =
      updated_values g t ns (AList.update i (spec_step_value g t i) acc)"
    by (simp add: x infl spec_step_value_def clip_def value_of_def)
  then show ?case using Cons by simp
qed

lemma fold_update_fresh:
  "distinct ns \<Longrightarrow> set ns \<inter> fst ` set acc = {} \<Longrightarrow>
   fold (\<lambda>i. AList.update i (f i)) ns acc = acc @ map (\<lambda>i. (i, f i)) ns"
proof (induction ns arbitrary: acc)
  case Nil
  then show ?case by simp
next
  case (Cons i ns)
  have upd: "AList.update i (f i) acc = acc @ [(i, f i)]"
    using Cons.prems(2) by (induction acc) auto
  have "fold (\<lambda>i. AList.update i (f i)) ns (acc @ [(i, f i)]) =
        (acc @ [(i, f i)]) @ map (\<lambda>i. (i, f i)) ns"
    using Cons.prems by (intro Cons.IH) auto
  then show ?case by (simp add: upd)
qed

lemma set_node_value_ok:
  "node_attrs g i = Some a \<Longrightarrow>
   \<exists>g1. set_node_value (i, v) g = Inr g1 \<and> edges g1 = edges g \<and> node_ids g1 = node_ids g \<and>
        node_attrs g1 = (node_attrs g)(i \<mapsto> a\<lparr>nvalue := Some v\<rparr>)"
proof -
  assume a: "node_attrs g i = Some a"
  then have "i \<in> set (map fst (nodes g))"
    by (metis has_node_iff has_node_def node_ids_def option.distinct(1))
  then show ?thesis
    using a by (auto simp add: set_node_value_def node_ids_def node_attrs_def update_keys update_conv')
qed

lemma store_values:
  "distinct ns \<Longrightarrow> set ns \<subseteq> set (node_ids g) \<Longrightarrow>
   \<exists>g'. for_each set_node_value (map (\<lambda>i. (i, f i)) ns) g = Inr g' \<and>
        edges g' = edges g \<and> node_ids g' = node_ids g \<and>
        (\<forall>n. node_attrs g' n =
           (if n \<in> set ns then map_option (\<lambda>a. a\<lparr>nvalue := Some (f n)\<rparr>) (node_attrs g n)
            else node_attrs g n))"
proof (induction ns arbitrary: g)
  case Nil
  then show ?case by simp
next
  case (Cons i ns)
  from Cons.prems obtain a where a: "node_attrs g i = Some a"
    by (auto simp add: has_node_iff[symmetric] has_node_def)
  from set_node_value_ok[OF a, of "f i"] obtain g1 where
    g1: "set_node_value (i, f i) g = Inr g1" "edges g1 = edges g" "node_ids g1 = node_ids g"
      "node_attrs g1 = (node_attrs g)(i \<mapsto> a\<lparr>nvalue := Some (f i)\<rparr>)"
    by blast
  have "\<exists>g'. for_each set_node_value (map (\<lambda>i. (i, f i)) ns) g1 = Inr g' \<and>
        edges g' = edges g1 \<and> node_ids g' = node_ids g1 \<and>
        (\<forall>n. node_attrs g' n =
           (if n \<in> set ns then map_option (\<lambda>a. a\<lparr>nvalue := Some (f n)\<rparr>) (node_attrs g1 n)
            else node_attrs g1 n))"
    using Cons.prems g1(3) by (intro Cons.IH) auto
  then obtain g' where g': "for_each set_node_value (map (\<lambda>i. (i, f i)) ns) g1 = Inr g'"
      "edges g' = edges g1" "node_ids g' = node_ids g1"
      "\<forall>n. node_attrs g' n =
           (if n \<in> set ns then map_option (\<lambda>a. a\<lparr>nvalue := Some (f n)\<rparr>) (node_attrs g1 n)
            else node_attrs g1 n)"
    by blast
  have "for_each set_node_value (map (\<lambda>i. (i, f i)) (i # ns)) g = Inr g'"
    by (simp add: g1(1) g'(1) and_then_def)
  moreover have "\<forall>n. node_attrs g' n =
           (if n \<in> set (i # ns) then map_option (\<lambda>a. a\<lparr>nvalue := Some (f n)\<rparr>) (node_attrs g n)
            else node_attrs g n)"
    using g'(4) g1(4) a Cons.prems(1) by auto
  ultimately show ?case using g'(2,3) g1(2,3) by auto
qed

text \<open>
  Claim C8. On a graph whose nodes all carry a value, the dynamics step with time factor
  \<open>t\<close> succeeds, keeps the nodes and the edges, and gives every node \<open>i\<close> the value
  \<open>clip(value_i + t * sum over the predecessors j of weight(j, i) * value_j, 0, 1)\<close>, in
  which every value is the one the graph had before the step: the update is
  simultaneous. Nothing else of a node changes.
\<close>

theorem dynamics_step_synchronous:
  assumes "wf_graph g" and "\<forall>n\<in>set (node_ids g). has_value g n"
  shows "\<exists>g'. dynamics_step g t = Inr g' \<and> edges g' = edges g \<and> node_ids g' = node_ids g \<and>
           (\<forall>i a. node_attrs g i = Some a \<longrightarrow>
              node_attrs g' i = Some (a\<lparr>nvalue := Some (spec_step_value g t i)\<rparr>))"
proof -
  have d: "distinct (node_ids g)"
    using assms(1) by (simp add: wf_graph_def node_ids_def)
  have "updated_values g t (node_ids g) [] =
      Inr (fold (\<lambda>i. AList.update i (spec_step_value g t i)) (node_ids g) [])"
    using assms by (intro updated_values_fold) auto
  then have ups: "updated_values g t (node_ids g) [] =
      Inr (map (\<lambda>i. (i, spec_step_value g t i)) (node_ids g))"
    using fold_update_fresh[OF d, of "[]" "spec_step_value g t"] by simp
  from store_values[OF d, of g "spec_step_value g t"] obtain g' where
    g': "for_each set_node_value (map (\<lambda>i. (i, spec_step_value g t i)) (node_ids g)) g = Inr g'"
      "edges g' = edges g" "node_ids g' = node_ids g"
      "\<forall>n. node_attrs g' n =
           (if n \<in> set (node_ids g)
            then map_option (\<lambda>a. a\<lparr>nvalue := Some (spec_step_value g t n)\<rparr>) (node_attrs g n)
            else node_attrs g n)"
    by auto
  have "dynamics_step g t = Inr g'"
    by (simp add: dynamics_step_def ups g'(1))
  moreover have "\<forall>i a. node_attrs g i = Some a \<longrightarrow>
              node_attrs g' i = Some (a\<lparr>nvalue := Some (spec_step_value g t i)\<rparr>)"
    using g'(4) by (auto simp add: has_node_iff[symmetric] has_node_def)
  ultimately show ?thesis using g'(2,3) by blast
qed

lemma step_example_eq:
  "step_example = \<lparr>nodes = [(0, no_attrs\<lparr>nvalue := Some (1 / 2)\<rparr>), (1, no_attrs\<lparr>nvalue := Some 1\<rparr>)],
                   edges = [((1, 0), 3 / 10)]\<rparr>"
  by (simp add: step_example_def add_edge_def add_node_def empty_graph_def ensure_node_def
      has_node_def node_attrs_def Let_def)

text \<open>
  The example of the claim: node 0 with value 0.5 and one incoming edge of weight 0.3
  from node 1 with value 1 gets the value 0.8 at \<open>t = 1\<close>; node 1 has no predecessor and
  keeps its value.
\<close>

theorem dynamics_step_synchronous_witness:
  "wf_graph step_example \<and> has_value step_example 0 \<and> has_value step_example 1 \<and>
   (\<exists>g'. dynamics_step step_example 1 = Inr g' \<and>
      node_attrs g' 0 = Some (no_attrs\<lparr>nvalue := Some (4 / 5)\<rparr>) \<and>
      node_attrs g' 1 = Some (no_attrs\<lparr>nvalue := Some 1\<rparr>))"
proof -
  have wf: "wf_graph step_example"
    by (simp add: step_example_eq wf_graph_def node_ids_def)
  have hv: "\<forall>n\<in>set (node_ids step_example). has_value step_example n"
    by (simp add: step_example_eq node_ids_def has_value_def node_value_def node_attrs_def)
  have v0: "spec_step_value step_example 1 0 = 4 / 5"
    by (simp add: step_example_eq spec_step_value_def clip_def predecessors_def weight_of_def
        value_of_def node_value_def node_attrs_def edge_value_def)
  have v1: "spec_step_value step_example 1 1 = 1"
    by (simp add: step_example_eq spec_step_value_def clip_def predecessors_def weight_of_def
        value_of_def node_value_def node_attrs_def edge_value_def)
  have a0: "node_attrs step_example 0 = Some (no_attrs\<lparr>nvalue := Some (1 / 2)\<rparr>)"
    and a1: "node_attrs step_example 1 = Some (no_attrs\<lparr>nvalue := Some 1\<rparr>)"
    by (simp_all add: step_example_eq node_attrs_def)
  from dynamics_step_synchronous[OF wf hv, of 1] obtain g' where
    g': "dynamics_step step_example 1 = Inr g'"
      "\<forall>i a. node_attrs step_example i = Some a \<longrightarrow>
              node_attrs g' i = Some (a\<lparr>nvalue := Some (spec_step_value step_example 1 i)\<rparr>)"
    by blast
  have "node_attrs g' 0 = Some (no_attrs\<lparr>nvalue := Some (4 / 5)\<rparr>)"
    using g'(2) a0 v0 by simp
  moreover have "node_attrs g' 1 = Some (no_attrs\<lparr>nvalue := Some 1\<rparr>)"
    using g'(2) a1 v1 by simp
  ultimately show ?thesis
    using wf hv g'(1) by (simp add: step_example_eq node_ids_def)
qed

subsection \<open>One iteration of the coarsening\<close>

lemma find_pair_first_maximum:
  assumes "\<forall>p\<in>set ps. compute_similarity func g (fst p) (snd p) = Inr (score p)"
  shows "((\<forall>p\<in>set ps. score p \<le> m) \<and> find_pair func g ps m pair = Inr pair) \<or>
         (\<exists>k<length ps. m < score (ps ! k) \<and>
            (\<forall>k'<length ps. score (ps ! k') \<le> score (ps ! k)) \<and>
            (\<forall>k'<k. score (ps ! k') < score (ps ! k)) \<and>
            find_pair func g ps m pair = Inr (Some (ps ! k)))"
  using assms
proof (induction ps arbitrary: m pair)
  case Nil
  then show ?case by simp
next
  case (Cons p ps)
  have sp: "compute_similarity func g (fst p) (snd p) = Inr (score p)"
    and rest: "\<forall>q\<in>set ps. compute_similarity func g (fst q) (snd q) = Inr (score q)"
    using Cons.prems by simp_all
  show ?case
  proof (cases "m < score p")
    case True
    then have step: "find_pair func g (p # ps) m pair = find_pair func g ps (score p) (Some p)"
      by (simp add: sp)
    from Cons.IH[OF rest, of "score p" "Some p"]
    show ?thesis
    proof (elim disjE conjE exE)
      assume le: "\<forall>q\<in>set ps. score q \<le> score p"
        and r: "find_pair func g ps (score p) (Some p) = Inr (Some p)"
      have "\<forall>k'<length (p # ps). score ((p # ps) ! k') \<le> score ((p # ps) ! 0)"
        using le by (auto simp add: nth_Cons' )
      then have "0 < length (p # ps) \<and> m < score ((p # ps) ! 0) \<and>
            (\<forall>k'<length (p # ps). score ((p # ps) ! k') \<le> score ((p # ps) ! 0)) \<and>
            (\<forall>k'<0. score ((p # ps) ! k') < score ((p # ps) ! 0)) \<and>
            find_pair func g (p # ps) m pair = Inr (Some ((p # ps) ! 0))"
        using True step r by simp
      then show ?thesis by blast
    next
      fix k
      assume k: "k < length ps" "score p < score (ps ! k)"
        "\<forall>k'<length ps. score (ps ! k') \<le> score (ps ! k)"
        "\<forall>k'<k. score (ps ! k') < score (ps ! k)"
        "find_pair func g ps (score p) (Some p) = Inr (Some (ps ! k))"
      have a: "\<forall>k'<length (p # ps). score ((p # ps) ! k') \<le> score ((p # ps) ! Suc k)"
        using k(2,3) by (auto simp add: nth_Cons')
      have b: "\<forall>k'<Suc k. score ((p # ps) ! k') < score ((p # ps) ! Suc k)"
        using k(2,4) by (auto simp add: nth_Cons' less_Suc_eq_0_disj)
      have "Suc k < length (p # ps) \<and> m < score ((p # ps) ! Suc k) \<and>
            (\<forall>k'<length (p # ps). score ((p # ps) ! k') \<le> score ((p # ps) ! Suc k)) \<and>
            (\<forall>k'<Suc k. score ((p # ps) ! k') < score ((p # ps) ! Suc k)) \<and>
            find_pair func g (p # ps) m pair = Inr (Some ((p # ps) ! Suc k))"
        using a b k(1,2,5) True step by simp
      then show ?thesis by blast
    qed
  next
    case False
    then have step: "find_pair func g (p # ps) m pair = find_pair func g ps m pair"
      by (simp add: sp)
    from Cons.IH[OF rest, of m pair]
    show ?thesis
    proof (elim disjE conjE exE)
      assume "\<forall>q\<in>set ps. score q \<le> m" "find_pair func g ps m pair = Inr pair"
      then show ?thesis using False step by simp
    next
      fix k
      assume k: "k < length ps" "m < score (ps ! k)"
        "\<forall>k'<length ps. score (ps ! k') \<le> score (ps ! k)"
        "\<forall>k'<k. score (ps ! k') < score (ps ! k)"
        "find_pair func g ps m pair = Inr (Some (ps ! k))"
      have a: "\<forall>k'<length (p # ps). score ((p # ps) ! k') \<le> score ((p # ps) ! Suc k)"
        using k(2,3) False by (auto simp add: nth_Cons')
      have b: "\<forall>k'<Suc k. score ((p # ps) ! k') < score ((p # ps) ! Suc k)"
        using k(2,4) False by (auto simp add: nth_Cons' less_Suc_eq_0_disj)
      have "Suc k < length (p # ps) \<and> m < score ((p # ps) ! Suc k) \<and>
            (\<forall>k'<length (p # ps). score ((p # ps) ! k') \<le> score ((p # ps) ! Suc k)) \<and>
            (\<forall>k'<Suc k. score ((p # ps) ! k') < score ((p # ps) ! Suc k)) \<and>
            find_pair func g (p # ps) m pair = Inr (Some ((p # ps) ! Suc k))"
        using a b k(1,2,5) step by simp
      then show ?thesis by blast
    qed
  qed
qed

lemma node_ids_init_labels [simp]: "node_ids (init_labels g) = node_ids g"
  by (simp add: init_labels_def node_ids_def comp_def)

lemma node_ids_with_labels [simp]: "node_ids (with_labels g) = node_ids g"
  by (simp add: with_labels_def split: list.splits)

lemma length_nodes_with_labels [simp]: "length (nodes (with_labels g)) = length (nodes g)"
  using node_ids_with_labels[of g] unfolding node_ids_def by (metis length_map)

lemma simplify_unfold:
  "nodes g \<noteq> [] \<Longrightarrow>
   simplify_graph_one_iteration func g =
     (if length (nodes g) \<le> 1 then Inr (with_labels g)
      else (case find_pair func (with_labels g) (combinations2 (node_ids g)) (- 1) None of
              Inl e \<Rightarrow> Inl (e, with_labels g)
            | Inr None \<Rightarrow> Inr (with_labels g)
            | Inr (Some p) \<Rightarrow> merge_nodes (with_labels g) (fst p) (snd p)))"
proof -
  assume "nodes g \<noteq> []"
  then obtain first rest where fr: "nodes g = first # rest" by (cases "nodes g") auto
  have w: "with_labels g = (if label (snd first) = None then init_labels g else g)"
    by (simp add: with_labels_def fr)
  have l: "length (nodes (with_labels g)) = length (nodes g)" by simp
  have n: "node_ids (with_labels g) = node_ids g" by simp
  show ?thesis
    unfolding simplify_graph_one_iteration_def fr list.case Let_def w[symmetric] l n
    by (simp add: fr)
qed

text \<open>
  Claim C2, as amended. On a graph with one node the iteration merges nothing. On a
  graph with two or more nodes it scores every pair of the enumeration of the unordered
  pairs of nodes; when no pair scores strictly above \<open>-1\<close> (so when every pair is
  non-adjacent and scores \<open>-2\<close>) it merges nothing, and otherwise it merges the first pair
  of the enumeration whose score is the greatest. In each case the labels are first
  reset to the nodes' own ids when the first node carries none.
\<close>

theorem simplify_merges_first_best_pair:
  assumes "nodes g \<noteq> []"
    and "\<forall>p\<in>set (combinations2 (node_ids g)).
           compute_similarity func (with_labels g) (fst p) (snd p) = Inr (score p)"
  shows "(length (nodes g) = 1 \<longrightarrow>
            simplify_graph_one_iteration func g = Inr (with_labels g)) \<and>
         (2 \<le> length (nodes g) \<longrightarrow>
            (if \<forall>p\<in>set (combinations2 (node_ids g)). score p \<le> - 1
             then simplify_graph_one_iteration func g = Inr (with_labels g)
             else \<exists>k<length (combinations2 (node_ids g)).
                    - 1 < score (combinations2 (node_ids g) ! k) \<and>
                    (\<forall>k'<length (combinations2 (node_ids g)).
                       score (combinations2 (node_ids g) ! k')
                         \<le> score (combinations2 (node_ids g) ! k)) \<and>
                    (\<forall>k'<k. score (combinations2 (node_ids g) ! k')
                         < score (combinations2 (node_ids g) ! k)) \<and>
                    simplify_graph_one_iteration func g =
                      merge_nodes (with_labels g) (fst (combinations2 (node_ids g) ! k))
                        (snd (combinations2 (node_ids g) ! k))))"
proof (intro conjI impI)
  assume "length (nodes g) = 1"
  then show "simplify_graph_one_iteration func g = Inr (with_labels g)"
    using assms(1) by (simp add: simplify_unfold)
next
  assume two: "2 \<le> length (nodes g)"
  let ?ps = "combinations2 (node_ids g)"
  from find_pair_first_maximum[OF assms(2), of "- 1" None]
  show "if \<forall>p\<in>set ?ps. score p \<le> - 1
        then simplify_graph_one_iteration func g = Inr (with_labels g)
        else \<exists>k<length ?ps. - 1 < score (?ps ! k) \<and>
               (\<forall>k'<length ?ps. score (?ps ! k') \<le> score (?ps ! k)) \<and>
               (\<forall>k'<k. score (?ps ! k') < score (?ps ! k)) \<and>
               simplify_graph_one_iteration func g =
                 merge_nodes (with_labels g) (fst (?ps ! k)) (snd (?ps ! k))"
  proof (elim disjE conjE exE)
    assume "\<forall>p\<in>set ?ps. score p \<le> - 1"
      and "find_pair func (with_labels g) ?ps (- 1) None = Inr None"
    then show ?thesis using two assms(1) by (simp add: simplify_unfold)
  next
    fix k
    assume k: "k < length ?ps" "- 1 < score (?ps ! k)"
      "\<forall>k'<length ?ps. score (?ps ! k') \<le> score (?ps ! k)"
      "\<forall>k'<k. score (?ps ! k') < score (?ps ! k)"
      "find_pair func (with_labels g) ?ps (- 1) None = Inr (Some (?ps ! k))"
    have "\<not> (\<forall>p\<in>set ?ps. score p \<le> - 1)"
      using k(1,2) by (metis nth_mem not_less)
    moreover have "simplify_graph_one_iteration func g =
                 merge_nodes (with_labels g) (fst (?ps ! k)) (snd (?ps ! k))"
      using two assms(1) k(5) by (simp add: simplify_unfold)
    ultimately show ?thesis using k(1-4) by auto
  qed
qed

lemma two_isolated_nodes_eq:
  "two_isolated_nodes =
     \<lparr>nodes = [(0, no_attrs\<lparr>nvalue := Some (1 / 5), label := Some [0]\<rparr>),
               (1, no_attrs\<lparr>nvalue := Some (4 / 5), label := Some [1]\<rparr>)],
      edges = []\<rparr>"
  by (simp add: two_isolated_nodes_def add_node_def empty_graph_def node_attrs_def)

lemma two_linked_nodes_eq:
  "two_linked_nodes =
     \<lparr>nodes = [(0, no_attrs\<lparr>nvalue := Some (1 / 5), label := Some [0]\<rparr>),
               (1, no_attrs\<lparr>nvalue := Some (4 / 5), label := Some [1]\<rparr>)],
      edges = [((0, 1), 1 / 2)]\<rparr>"
  by (simp add: two_linked_nodes_def two_isolated_nodes_eq add_edge_def ensure_node_def
      has_node_def node_attrs_def Let_def)

text \<open>
  Claim C2 as stated fails: the graph of two nodes without an edge has one pair, which
  scores \<open>-2\<close>; the search starts from \<open>-1\<close>, no pair is selected, and the iteration
  returns the graph with its two nodes.
\<close>

theorem simplify_no_merge_counterexample:
  "length (nodes two_isolated_nodes) = 2 \<and>
   compute_similarity default_similarity two_isolated_nodes 0 1 = Inr (- 2) \<and>
   simplify_graph_one_iteration default_similarity two_isolated_nodes = Inr two_isolated_nodes"
  by (simp add: two_isolated_nodes_eq simplify_graph_one_iteration_def node_ids_def
      compute_similarity_def has_edge_def edge_value_def no_attrs_def)

text \<open>
  On the two nodes joined by the edge of weight 0.5, the only pair scores 10.67 and is
  merged.
\<close>

theorem simplify_merges_first_best_pair_witness:
  "nodes two_linked_nodes \<noteq> [] \<and>
   compute_similarity default_similarity (with_labels two_linked_nodes) 0 1 = Inr (1067 / 100) \<and>
   simplify_graph_one_iteration default_similarity two_linked_nodes =
     merge_nodes (with_labels two_linked_nodes) 0 1"
proof -
  have ne: "nodes two_linked_nodes \<noteq> []"
    by (simp add: two_linked_nodes_eq)
  have ps: "combinations2 (node_ids two_linked_nodes) = [(0, 1)]"
    by (simp add: two_linked_nodes_eq node_ids_def)
  have sc: "compute_similarity default_similarity (with_labels two_linked_nodes) 0 1
              = Inr (1067 / 100)"
    by (simp add: two_linked_nodes_eq with_labels_def compute_similarity_def has_edge_def
        edge_value_def node_value_def node_size_def node_attrs_def get_label_def no_attrs_def
        default_similarity_def default_similarity_function_def)
  have all: "\<forall>p\<in>set (combinations2 (node_ids two_linked_nodes)).
           compute_similarity default_similarity (with_labels two_linked_nodes) (fst p) (snd p)
             = Inr ((\<lambda>p. 1067 / 100) p)"
    by (simp add: ps sc)
  have two: "2 \<le> length (nodes two_linked_nodes)"
    by (simp add: two_linked_nodes_eq)
  have "simplify_graph_one_iteration default_similarity two_linked_nodes =
     merge_nodes (with_labels two_linked_nodes) 0 1"
    using simplify_merges_first_best_pair[OF ne all] two by (simp add: ps)
  then show ?thesis using ne sc by simp
qed

text \<open>
  The enumeration of the search is every pair of positions \<open>a < b\<close> of the node list, and a
  graph without nodes makes the check of the labels raise.
\<close>

lemma simplify_empty_graph:
  "simplify_graph_one_iteration func empty_graph = Inl (StopIteration, empty_graph)"
  by (simp add: simplify_graph_one_iteration_def empty_graph_def)

lemma combinations2_set:
  "set (combinations2 xs) =
     {(xs ! a, xs ! b) | a b. a < b \<and> b < length xs}"
proof (induction xs)
  case Nil
  then show ?case by simp
next
  case (Cons x xs)
  have "{((x # xs) ! a, (x # xs) ! b) | a b. a < b \<and> b < length (x # xs)} =
        Pair x ` set xs \<union> {(xs ! a, xs ! b) | a b. a < b \<and> b < length xs}"
    (is "?L = ?R")
  proof
    show "?L \<subseteq> ?R"
    proof
      fix p assume "p \<in> ?L"
      then obtain a b where p: "p = ((x # xs) ! a, (x # xs) ! b)" "a < b" "b < length (x # xs)"
        by blast
      from p(2) obtain b' where b: "b = Suc b'" by (cases b) auto
      show "p \<in> ?R"
      proof (cases a)
        case 0
        then show ?thesis using p b by simp
      next
        case (Suc a')
        then have "p = (xs ! a', xs ! b')" "a' < b'" "b' < length xs" using p b by simp_all
        then show ?thesis by blast
      qed
    qed
    show "?R \<subseteq> ?L"
    proof
      fix p assume "p \<in> ?R"
      then consider y where "p = (x, y)" "y \<in> set xs"
        | a b where "p = (xs ! a, xs ! b)" "a < b" "b < length xs"
        by blast
      then show "p \<in> ?L"
      proof cases
        case 1
        then obtain k where "k < length xs" "xs ! k = y" by (metis in_set_conv_nth)
        then have "p = ((x # xs) ! 0, (x # xs) ! Suc k)" "0 < Suc k" "Suc k < length (x # xs)"
          using 1 by simp_all
        then show ?thesis by blast
      next
        case 2
        then have "p = ((x # xs) ! Suc a, (x # xs) ! Suc b)" "Suc a < Suc b"
          "Suc b < length (x # xs)"
          by simp_all
        then show ?thesis by blast
      qed
    qed
  qed
  then show ?case using Cons.IH by simp
qed

lemma combinations2_length: "length (combinations2 xs) = length xs * (length xs - 1) div 2"
proof (induction xs)
  case Nil
  then show ?case by simp
next
  case (Cons x xs)
  have "length xs + length xs * (length xs - 1) div 2 = (length xs + 1) * length xs div 2"
    by (cases "length xs") simp_all
  then show ?case using Cons.IH by simp
qed

subsection \<open>Merging two nodes\<close>

lemma nodes_set_edge_value [simp]: "nodes (set_edge_value g u v x) = nodes g"
  by (simp add: set_edge_value_def)

lemma edge_value_set_edge_value:
  "edge_value (set_edge_value g u v x) a b = (if a = u \<and> b = v then Some x else edge_value g a b)"
  by (simp add: set_edge_value_def edge_value_def update_conv')

lemma remove_edge_Inr:
  "remove_edge g u v = Inr g' \<Longrightarrow>
   nodes g' = nodes g \<and>
   (\<forall>a b. edge_value g' a b = (if a = u \<and> b = v then None else edge_value g a b))"
  by (auto simp add: remove_edge_def edge_value_def delete_conv' split: if_splits)

lemma remove_edge_present:
  "has_edge g u v \<Longrightarrow> \<exists>g'. remove_edge g u v = Inr g'"
  by (simp add: remove_edge_def)

lemma has_node_nodes_eq: "nodes g' = nodes g \<Longrightarrow> has_node g' n = has_node g n"
  by (simp add: has_node_def node_attrs_def)

lemma reconnect_source_step:
  assumes "edge_value g u v = Some w" and "u \<noteq> new_node"
    and "has_node g v" and "has_node g new_node"
  shows "\<exists>g1. reconnect_source i j new_node u v g = Inr g1 \<and> nodes g1 = nodes g \<and>
           (\<forall>a b. edge_value g1 a b =
              (if u = i \<or> u = j then
                 (if a = u \<and> b = v then None
                  else if a = new_node \<and> b = v \<and> v \<noteq> i \<and> v \<noteq> j
                       then Some (weight_of g new_node v + w)
                  else edge_value g a b)
               else edge_value g a b))"
proof (cases "u = i \<or> u = j")
  case False
  then show ?thesis by (simp add: reconnect_source_rnd_def)
next
  case True
  define g0 where "g0 = (if v \<noteq> i \<and> v \<noteq> j
      then (case edge_value g new_node v of
              Some old \<Rightarrow> set_edge_value g new_node v (old + w)
            | None \<Rightarrow> add_edge g new_node v w)
      else g)"
  have n0: "nodes g0 = nodes g"
    using assms(3,4) by (simp add: g0_def split: option.splits)
  have e0: "edge_value g0 a b =
      (if a = new_node \<and> b = v \<and> v \<noteq> i \<and> v \<noteq> j then Some (weight_of g new_node v + w)
       else edge_value g a b)" for a b
    by (simp add: g0_def edge_value_set_edge_value edge_value_add_edge weight_of_def
        split: option.splits)
  have "has_edge g0 u v"
    using assms(1,2) by (simp add: has_edge_def e0)
  then obtain g1 where g1: "remove_edge g0 u v = Inr g1"
    using remove_edge_present by blast
  have "reconnect_source i j new_node u v g =
      and_then (Inr g0)
        (\<lambda>g1. if has_edge g1 u v then at_graph g1 (remove_edge g1 u v) else Inr g1)"
    using True assms(1) by (simp add: reconnect_source_rnd_def g0_def)
  then have src: "reconnect_source i j new_node u v g = Inr g1"
    using \<open>has_edge g0 u v\<close> g1 by (simp add: and_then_def at_graph_def)
  from remove_edge_Inr[OF g1] have
    n1: "nodes g1 = nodes g0" and
    e1: "\<And>a b. edge_value g1 a b = (if a = u \<and> b = v then None else edge_value g0 a b)"
    by auto
  show ?thesis
    using True src n1 n0 assms(2) by (auto simp add: e1 e0)
qed

lemma reconnect_target_step:
  assumes "edge_value g u v = Some w" and "v \<noteq> new_node"
    and "has_node g u" and "has_node g new_node"
  shows "\<exists>g1. reconnect_target i j new_node u v g = Inr g1 \<and> nodes g1 = nodes g \<and>
           (\<forall>a b. edge_value g1 a b =
              (if v = i \<or> v = j then
                 (if a = u \<and> b = v then None
                  else if a = u \<and> b = new_node \<and> u \<noteq> i \<and> u \<noteq> j
                       then Some (weight_of g u new_node + w)
                  else edge_value g a b)
               else edge_value g a b))"
proof (cases "v = i \<or> v = j")
  case False
  then show ?thesis by (simp add: reconnect_target_rnd_def)
next
  case True
  define g0 where "g0 = (if u \<noteq> i \<and> u \<noteq> j
      then (case edge_value g u new_node of
              Some old \<Rightarrow> set_edge_value g u new_node (old + w)
            | None \<Rightarrow> add_edge g u new_node w)
      else g)"
  have n0: "nodes g0 = nodes g"
    using assms(3,4) by (simp add: g0_def split: option.splits)
  have e0: "edge_value g0 a b =
      (if a = u \<and> b = new_node \<and> u \<noteq> i \<and> u \<noteq> j then Some (weight_of g u new_node + w)
       else edge_value g a b)" for a b
    by (simp add: g0_def edge_value_set_edge_value edge_value_add_edge weight_of_def
        split: option.splits)
  have "has_edge g0 u v"
    using assms(1,2) by (simp add: has_edge_def e0)
  then obtain g1 where g1: "remove_edge g0 u v = Inr g1"
    using remove_edge_present by blast
  have "reconnect_target i j new_node u v g =
      and_then (Inr g0)
        (\<lambda>g1. if has_edge g1 u v then at_graph g1 (remove_edge g1 u v) else Inr g1)"
    using True assms(1) by (simp add: reconnect_target_rnd_def g0_def)
  then have src: "reconnect_target i j new_node u v g = Inr g1"
    using \<open>has_edge g0 u v\<close> g1 by (simp add: and_then_def at_graph_def)
  from remove_edge_Inr[OF g1] have
    n1: "nodes g1 = nodes g0" and
    e1: "\<And>a b. edge_value g1 a b = (if a = u \<and> b = v then None else edge_value g0 a b)"
    by auto
  show ?thesis
    using True src n1 n0 assms(2) by (auto simp add: e1 e0)
qed

lemma reconnect_target_skip:
  "u = i \<or> u = j \<Longrightarrow> \<not> has_edge g u v \<Longrightarrow> reconnect_target i j new_node u v g = Inr g"
  by (auto simp add: reconnect_target_rnd_def and_then_def)

lemma reconnect_source_skip:
  "u \<noteq> i \<Longrightarrow> u \<noteq> j \<Longrightarrow> reconnect_source i j new_node u v g = Inr g"
  by (simp add: reconnect_source_rnd_def)

lemma reconnect_step:
  assumes "edge_value g (fst e) (fst (snd e)) = Some w"
    and "fst e \<noteq> new_node" and "fst (snd e) \<noteq> new_node"
    and "has_node g (fst e)" and "has_node g (fst (snd e))" and "has_node g new_node"
  shows "\<exists>g1. reconnect i j new_node e g = Inr g1 \<and> nodes g1 = nodes g \<and>
           (\<forall>a b. edge_value g1 a b =
              (if (fst e = i \<or> fst e = j \<or> fst (snd e) = i \<or> fst (snd e) = j)
                    \<and> a = fst e \<and> b = fst (snd e) then None
               else if (fst e = i \<or> fst e = j) \<and> fst (snd e) \<noteq> i \<and> fst (snd e) \<noteq> j
                    \<and> a = new_node \<and> b = fst (snd e)
                    then Some (weight_of g new_node (fst (snd e)) + w)
               else if (fst (snd e) = i \<or> fst (snd e) = j) \<and> fst e \<noteq> i \<and> fst e \<noteq> j
                    \<and> a = fst e \<and> b = new_node
                    then Some (weight_of g (fst e) new_node + w)
               else edge_value g a b))"
proof (cases "fst e = i \<or> fst e = j")
  case True
  from reconnect_source_step[OF assms(1,2,5,6), of i j] obtain g1 where
    g1: "reconnect_source i j new_node (fst e) (fst (snd e)) g = Inr g1" "nodes g1 = nodes g"
    and e1: "\<And>a b. edge_value g1 a b =
              (if a = fst e \<and> b = fst (snd e) then None
               else if a = new_node \<and> b = fst (snd e) \<and> fst (snd e) \<noteq> i \<and> fst (snd e) \<noteq> j
                    then Some (weight_of g new_node (fst (snd e)) + w)
               else edge_value g a b)"
    using True by auto
  have "\<not> has_edge g1 (fst e) (fst (snd e))"
    by (simp add: has_edge_def e1)
  then have "reconnect_target i j new_node (fst e) (fst (snd e)) g1 = Inr g1"
    using True by (intro reconnect_target_skip) auto
  then have "reconnect i j new_node e g = Inr g1"
    by (simp add: reconnect_rnd_def g1(1) and_then_def)
  then show ?thesis
    using g1(2) True by (auto simp add: e1)
next
  case False
  then have s: "reconnect_source i j new_node (fst e) (fst (snd e)) g = Inr g"
    by (simp add: reconnect_source_skip)
  from reconnect_target_step[OF assms(1,3,4,6), of i j] obtain g1 where
    g1: "reconnect_target i j new_node (fst e) (fst (snd e)) g = Inr g1" "nodes g1 = nodes g"
    and e1: "\<And>a b. edge_value g1 a b =
              (if fst (snd e) = i \<or> fst (snd e) = j then
                 (if a = fst e \<and> b = fst (snd e) then None
                  else if a = fst e \<and> b = new_node \<and> fst e \<noteq> i \<and> fst e \<noteq> j
                       then Some (weight_of g (fst e) new_node + w)
                  else edge_value g a b)
               else edge_value g a b)"
    by auto
  have "reconnect i j new_node e g = Inr g1"
    by (simp add: reconnect_rnd_def s g1(1) and_then_def)
  then show ?thesis
    using g1(2) False by (auto simp add: e1)
qed

lemma reconnect_loop:
  assumes "distinct (map edge_key es)"
    and "\<forall>e\<in>set es. edge_value g (fst e) (fst (snd e)) = Some (snd (snd e)) \<and>
           fst e \<noteq> new_node \<and> fst (snd e) \<noteq> new_node \<and>
           has_node g (fst e) \<and> has_node g (fst (snd e))"
    and "has_node g new_node"
  shows "\<exists>g'. for_each (reconnect i j new_node) es g = Inr g' \<and> nodes g' = nodes g \<and>
           (\<forall>a b. edge_value g' a b =
              (if a = new_node then
                 (if b = i \<or> b = j \<or> moved_out i j es b = [] then edge_value g new_node b
                  else Some (weight_of g new_node b + sum_list (moved_out i j es b)))
               else if b = new_node then
                 (if a = i \<or> a = j \<or> moved_in i j es a = [] then edge_value g a new_node
                  else Some (weight_of g a new_node + sum_list (moved_in i j es a)))
               else if (a = i \<or> a = j \<or> b = i \<or> b = j) \<and> (a, b) \<in> edge_key ` set es
                    then None
               else edge_value g a b))"
  using assms
proof (induction es arbitrary: g)
  case Nil
  then show ?case by (simp add: moved_out_def moved_in_def)
next
  case (Cons e es)
  let ?u = "fst e" and ?v = "fst (snd e)" and ?w = "snd (snd e)"
  have e: "edge_value g ?u ?v = Some ?w" "?u \<noteq> new_node" "?v \<noteq> new_node"
    "has_node g ?u" "has_node g ?v"
    using Cons.prems(2) by simp_all
  from reconnect_step[OF e Cons.prems(3), of i j] obtain g1 where
    g1: "reconnect i j new_node e g = Inr g1" "nodes g1 = nodes g"
    and e1: "\<And>a b. edge_value g1 a b =
              (if (?u = i \<or> ?u = j \<or> ?v = i \<or> ?v = j) \<and> a = ?u \<and> b = ?v then None
               else if (?u = i \<or> ?u = j) \<and> ?v \<noteq> i \<and> ?v \<noteq> j \<and> a = new_node \<and> b = ?v
                    then Some (weight_of g new_node ?v + ?w)
               else if (?v = i \<or> ?v = j) \<and> ?u \<noteq> i \<and> ?u \<noteq> j \<and> a = ?u \<and> b = new_node
                    then Some (weight_of g ?u new_node + ?w)
               else edge_value g a b)"
    by blast
  have d: "distinct (map edge_key es)" and notin: "edge_key e \<notin> edge_key ` set es"
    using Cons.prems(1) by simp_all
  have keep: "edge_value g1 (fst e') (fst (snd e')) = edge_value g (fst e') (fst (snd e'))"
    if "e' \<in> set es" for e'
  proof -
    have "edge_key e' \<noteq> edge_key e" using that notin by (metis imageI)
    moreover have "fst e' \<noteq> new_node" "fst (snd e') \<noteq> new_node"
      using Cons.prems(2) that by simp_all
    ultimately show ?thesis by (auto simp add: e1 edge_key_def)
  qed
  have pre: "\<forall>e'\<in>set es. edge_value g1 (fst e') (fst (snd e')) = Some (snd (snd e')) \<and>
           fst e' \<noteq> new_node \<and> fst (snd e') \<noteq> new_node \<and>
           has_node g1 (fst e') \<and> has_node g1 (fst (snd e'))"
    using Cons.prems(2) keep by (simp add: has_node_nodes_eq[OF g1(2)])
  have hn: "has_node g1 new_node"
    using Cons.prems(3) by (simp add: has_node_nodes_eq[OF g1(2)])
  from Cons.IH[OF d pre hn] obtain g' where
    g': "for_each (reconnect i j new_node) es g1 = Inr g'" "nodes g' = nodes g1"
    and e': "\<And>a b. edge_value g' a b =
              (if a = new_node then
                 (if b = i \<or> b = j \<or> moved_out i j es b = [] then edge_value g1 new_node b
                  else Some (weight_of g1 new_node b + sum_list (moved_out i j es b)))
               else if b = new_node then
                 (if a = i \<or> a = j \<or> moved_in i j es a = [] then edge_value g1 a new_node
                  else Some (weight_of g1 a new_node + sum_list (moved_in i j es a)))
               else if (a = i \<or> a = j \<or> b = i \<or> b = j) \<and> (a, b) \<in> edge_key ` set es
                    then None
               else edge_value g1 a b)"
    by blast
  have run: "for_each (reconnect i j new_node) (e # es) g = Inr g'"
    by (simp add: g1(1) g'(1) and_then_def)
  have mo: "moved_out i j (e # es) b =
      (if (?u = i \<or> ?u = j) \<and> ?v = b then ?w # moved_out i j es b else moved_out i j es b)"
    for b by (simp add: moved_out_def)
  have mi: "moved_in i j (e # es) a =
      (if (?v = i \<or> ?v = j) \<and> ?u = a then ?w # moved_in i j es a else moved_in i j es a)"
    for a by (simp add: moved_in_def)
  have w1: "weight_of g1 a b = (case edge_value g1 a b of None \<Rightarrow> 0 | Some x \<Rightarrow> x)" for a b
    by (simp add: weight_of_def)
  have final: "edge_value g' a b =
              (if a = new_node then
                 (if b = i \<or> b = j \<or> moved_out i j (e # es) b = [] then edge_value g new_node b
                  else Some (weight_of g new_node b + sum_list (moved_out i j (e # es) b)))
               else if b = new_node then
                 (if a = i \<or> a = j \<or> moved_in i j (e # es) a = [] then edge_value g a new_node
                  else Some (weight_of g a new_node + sum_list (moved_in i j (e # es) a)))
               else if (a = i \<or> a = j \<or> b = i \<or> b = j) \<and> (a, b) \<in> edge_key ` set (e # es)
                    then None
               else edge_value g a b)" for a b
  proof (cases "a = new_node")
    case True
    then show ?thesis
      using e(2,3) by (auto simp add: e' e1 mo weight_of_def add.assoc)
  next
    case False
    note na = this
    show ?thesis
    proof (cases "b = new_node")
      case True
      then show ?thesis
        using na e(2,3) by (auto simp add: e' e1 mi weight_of_def add.assoc)
    next
      case False
      then show ?thesis
        using na by (auto simp add: e' e1 edge_key_def)
    qed
  qed
  show ?case
    using run g'(2) g1(2) final by auto
qed

lemma update_fresh: "k \<notin> fst ` set al \<Longrightarrow> AList.update k v al = al @ [(k, v)]"
  by (induction al) auto

lemma max_id_fresh: "n \<in> set (node_ids g) \<Longrightarrow> n < Max (set (node_ids g)) + 1"
  by (simp add: less_add_one order_le_less_trans)

lemma new_node_fresh: "Max (set (node_ids g)) + 1 \<notin> set (node_ids g)"
  using max_id_fresh[of "Max (set (node_ids g)) + 1" g] by auto

lemma add_node_fresh:
  "n \<notin> set (node_ids g) \<Longrightarrow> add_node g n a = g\<lparr>nodes := nodes g @ [(n, a)]\<rparr>"
proof -
  assume n: "n \<notin> set (node_ids g)"
  then have "node_attrs g n = None"
    by (simp add: node_attrs_def node_ids_def map_of_eq_None_iff)
  moreover have "n \<notin> fst ` set (nodes g)" using n by (simp add: node_ids_def)
  ultimately show ?thesis by (simp add: add_node_def update_fresh)
qed

lemma set_edges_data:
  "set (edges_data g) =
     {e. ((fst e, fst (snd e)), snd (snd e)) \<in> set (edges g) \<and> fst e \<in> set (node_ids g)}"
  by (auto simp add: edges_data_def) force

lemma chunk_keys:
  "map edge_key (map (\<lambda>e. (u, snd (fst e), snd e)) (filter (\<lambda>e. fst (fst e) = u) es)) =
   map fst (filter (\<lambda>e. fst (fst e) = u) es)"
  by (induction es) (auto simp add: edge_key_def)

lemma distinct_chunks:
  "distinct ns \<Longrightarrow> distinct (map fst es) \<Longrightarrow>
   distinct (map edge_key (concat (map (\<lambda>u. map (\<lambda>e. (u, snd (fst e), snd e))
       (filter (\<lambda>e. fst (fst e) = u) es)) ns)))"
proof (induction ns)
  case Nil
  then show ?case by simp
next
  case (Cons n ns)
  have a: "distinct (map fst (filter (\<lambda>e. fst (fst e) = n) es))"
    using Cons.prems(2) by (simp add: distinct_map_filter)
  have b: "fst k = n" if "k \<in> set (map fst (filter (\<lambda>e. fst (fst e) = n) es))" for k
    using that by auto
  have c: "fst k \<in> set ns"
    if "k \<in> set (map edge_key (concat (map (\<lambda>u. map (\<lambda>e. (u, snd (fst e), snd e))
       (filter (\<lambda>e. fst (fst e) = u) es)) ns)))" for k
    using that by (auto simp add: edge_key_def)
  have "n \<notin> set ns" using Cons.prems(1) by simp
  then have disj: "set (map fst (filter (\<lambda>e. fst (fst e) = n) es)) \<inter>
      set (map edge_key (concat (map (\<lambda>u. map (\<lambda>e. (u, snd (fst e), snd e))
       (filter (\<lambda>e. fst (fst e) = u) es)) ns))) = {}"
    using b c by blast
  show ?case
    using a disj Cons.IH Cons.prems
    by (simp only: list.map concat.simps map_append chunk_keys distinct_append distinct.simps)
qed

lemma distinct_edges_data: "wf_graph g \<Longrightarrow> distinct (map edge_key (edges_data g))"
  unfolding edges_data_def
  by (intro distinct_chunks) (simp_all add: wf_graph_def node_ids_def)

lemma edges_data_entry:
  assumes "wf_graph g" and "e \<in> set (edges_data g)"
  shows "edge_value g (fst e) (fst (snd e)) = Some (snd (snd e)) \<and>
         fst e \<in> set (node_ids g) \<and> fst (snd e) \<in> set (node_ids g)"
proof -
  have m: "((fst e, fst (snd e)), snd (snd e)) \<in> set (edges g)"
    using assms(2) by (simp add: set_edges_data)
  have "distinct (map fst (edges g))" using assms(1) by (simp add: wf_graph_def)
  then have "map_of (edges g) (fst e, fst (snd e)) = Some (snd (snd e))"
    using m by simp
  moreover have "fst e \<in> set (node_ids g) \<and> fst (snd e) \<in> set (node_ids g)"
    using assms(1) m by (force simp add: wf_graph_def)
  ultimately show ?thesis by (simp add: edge_value_def)
qed

lemma edge_keys_edges_data:
  "wf_graph g \<Longrightarrow> (a, b) \<in> edge_key ` set (edges_data g) \<longleftrightarrow> has_edge g a b"
proof
  assume wf: "wf_graph g" and "(a, b) \<in> edge_key ` set (edges_data g)"
  then obtain e where "e \<in> set (edges_data g)" "edge_key e = (a, b)" by auto
  then show "has_edge g a b"
    using edges_data_entry[OF wf, of e] by (auto simp add: has_edge_def edge_key_def)
next
  assume wf: "wf_graph g" and "has_edge g a b"
  then obtain w where "edge_value g a b = Some w" by (auto simp add: has_edge_def)
  then have m: "((a, b), w) \<in> set (edges g)"
    by (simp add: edge_value_def map_of_SomeD)
  then have "a \<in> set (node_ids g)" using wf by (force simp add: wf_graph_def)
  then have "(a, b, w) \<in> set (edges_data g)" using m by (simp add: set_edges_data)
  then show "(a, b) \<in> edge_key ` set (edges_data g)"
    by (force simp add: edge_key_def)
qed

lemma edges_data_add_fresh_node:
  assumes "wf_graph g" and "n \<notin> set (node_ids g)"
  shows "edges_data (g\<lparr>nodes := nodes g @ [(n, a)]\<rparr>) = edges_data g"
proof -
  have "filter (\<lambda>e. fst (fst e) = n) (edges g) = []"
    using assms by (auto simp add: wf_graph_def filter_empty_conv)
  then show ?thesis by (simp add: edges_data_def node_ids_def)
qed

lemma delete_filter: "AList.delete n al = filter (\<lambda>p. fst p \<noteq> n) al"
  by (induction al) auto

lemma remove_node_Inr:
  "remove_node g n = Inr g' \<Longrightarrow>
   nodes g' = filter (\<lambda>p. fst p \<noteq> n) (nodes g) \<and>
   (\<forall>a b. edge_value g' a b = (if a = n \<or> b = n then None else edge_value g a b))"
proof -
  assume "remove_node g n = Inr g'"
  then have g': "g' = \<lparr>nodes = AList.delete n (nodes g),
                edges = filter (\<lambda>e. fst (fst e) \<noteq> n \<and> snd (fst e) \<noteq> n) (edges g)\<rparr>"
    by (auto simp add: remove_node_def split: if_splits)
  have "map_of (filter (\<lambda>e. (\<lambda>k. fst k \<noteq> n \<and> snd k \<noteq> n) (fst e)) (edges g)) (a, b) =
      (if a = n \<or> b = n then None else map_of (edges g) (a, b))" for a b
    by (subst map_of_filter_fst) auto
  then show ?thesis
    by (simp add: g' edge_value_def delete_filter)
qed

lemma remove_node_present: "has_node g n \<Longrightarrow> \<exists>g'. remove_node g n = Inr g'"
  by (simp add: remove_node_def)

lemma no_edge_outside_nodes:
  "wf_graph g \<Longrightarrow> a \<notin> set (node_ids g) \<or> b \<notin> set (node_ids g) \<Longrightarrow> edge_value g a b = None"
proof (rule ccontr)
  assume wf: "wf_graph g" and out: "a \<notin> set (node_ids g) \<or> b \<notin> set (node_ids g)"
    and "edge_value g a b \<noteq> None"
  then obtain w where "((a, b), w) \<in> set (edges g)"
    by (auto simp add: edge_value_def dest: map_of_SomeD)
  then show False using wf out by (force simp add: wf_graph_def)
qed

lemma merge_nodes_result:
  assumes wf: "wf_graph g" and ij: "i \<noteq> j"
    and ai: "node_attrs g i = Some ai" and aj: "node_attrs g j = Some aj"
    and vi: "nvalue ai = Some vi" and vj: "nvalue aj = Some vj"
    and sz: "0 < length (get_label i ai) + length (get_label j aj)"
  shows "\<exists>g'. merge_nodes g i j = Inr g' \<and>
     nodes g' = filter (\<lambda>p. fst p \<noteq> i \<and> fst p \<noteq> j) (nodes g) @
       [(Max (set (node_ids g)) + 1,
         \<lparr>nvalue = Some ((vi * real (length (get_label i ai)) + vj * real (length (get_label j aj)))
                          / real (length (get_label i ai) + length (get_label j aj))),
          label = Some (get_label i ai @ get_label j aj),
          min_value = Some (min (get_min_value ai vi) (get_min_value aj vj)),
          max_value = Some (max (get_max_value ai vi) (get_max_value aj vj)),
          importance = None\<rparr>)] \<and>
     (\<forall>a b. edge_value g' a b =
        (if a = i \<or> a = j \<or> b = i \<or> b = j then None
         else if a = Max (set (node_ids g)) + 1 then
           (if moved_out i j (edges_data g) b = [] then None
            else Some (sum_list (moved_out i j (edges_data g) b)))
         else if b = Max (set (node_ids g)) + 1 then
           (if moved_in i j (edges_data g) a = [] then None
            else Some (sum_list (moved_in i j (edges_data g) a)))
         else edge_value g a b))"
proof -
  define new_node where "new_node = Max (set (node_ids g)) + 1"
  define A where "A = \<lparr>nvalue = Some ((vi * real (length (get_label i ai))
                            + vj * real (length (get_label j aj)))
                          / real (length (get_label i ai) + length (get_label j aj))),
          label = Some (get_label i ai @ get_label j aj),
          min_value = Some (min (get_min_value ai vi) (get_min_value aj vj)),
          max_value = Some (max (get_max_value ai vi) (get_max_value aj vj)),
          importance = None\<rparr>"
  define g1 where "g1 = g\<lparr>nodes := nodes g @ [(new_node, A)]\<rparr>"
  have fresh: "new_node \<notin> set (node_ids g)"
    unfolding new_node_def by (rule new_node_fresh)
  have i_in: "i \<in> set (node_ids g)" and j_in: "j \<in> set (node_ids g)"
    using ai aj by (simp_all add: has_node_iff[symmetric] has_node_def)
  have ni: "new_node \<noteq> i" and nj: "new_node \<noteq> j"
    using fresh i_in j_in by auto
  have g1_add: "add_node g new_node A = g1"
    unfolding g1_def using fresh by (rule add_node_fresh)
  have unfold: "merge_nodes g i j =
      and_then (for_each (reconnect i j new_node) (edges_data g1) g1)
        (\<lambda>g2. and_then (at_graph g2 (remove_node g2 i))
                 (\<lambda>g3. at_graph g3 (remove_node g3 j)))"
  proof -
    have nz: "(length (get_label i ai) + length (get_label j aj) = 0) = False"
      using sz by simp
    show ?thesis
      by (simp only: merge_nodes_rnd_def ai aj vi vj option.case Let_def nz if_False
          new_node_def[symmetric] A_def[symmetric] g1_add)
  qed
  have ed: "edges_data g1 = edges_data g"
    unfolding g1_def using wf fresh by (rule edges_data_add_fresh_node)
  have ev1: "edge_value g1 a b = edge_value g a b" for a b
    by (simp add: g1_def edge_value_def)
  have hn1: "has_node g1 n \<longleftrightarrow> n = new_node \<or> n \<in> set (node_ids g)" for n
    by (auto simp add: has_node_iff g1_def node_ids_def)
  have pre: "\<forall>e\<in>set (edges_data g). edge_value g1 (fst e) (fst (snd e)) = Some (snd (snd e)) \<and>
           fst e \<noteq> new_node \<and> fst (snd e) \<noteq> new_node \<and>
           has_node g1 (fst e) \<and> has_node g1 (fst (snd e))"
    using edges_data_entry[OF wf] fresh by (auto simp add: ev1 hn1)
  have hnew: "has_node g1 new_node" by (simp add: hn1)
  from reconnect_loop[OF distinct_edges_data[OF wf] pre hnew, of i j] obtain g2 where
    g2: "for_each (reconnect i j new_node) (edges_data g) g1 = Inr g2" "nodes g2 = nodes g1"
    and e2: "\<And>a b. edge_value g2 a b =
              (if a = new_node then
                 (if b = i \<or> b = j \<or> moved_out i j (edges_data g) b = []
                  then edge_value g1 new_node b
                  else Some (weight_of g1 new_node b + sum_list (moved_out i j (edges_data g) b)))
               else if b = new_node then
                 (if a = i \<or> a = j \<or> moved_in i j (edges_data g) a = []
                  then edge_value g1 a new_node
                  else Some (weight_of g1 a new_node + sum_list (moved_in i j (edges_data g) a)))
               else if (a = i \<or> a = j \<or> b = i \<or> b = j)
                       \<and> (a, b) \<in> edge_key ` set (edges_data g)
                    then None
               else edge_value g1 a b)"
    by blast
  have none_new: "edge_value g1 new_node b = None" "edge_value g1 a new_node = None" for a b
    using no_edge_outside_nodes[OF wf] fresh by (simp_all add: ev1)
  have w_new: "weight_of g1 new_node b = 0" "weight_of g1 a new_node = 0" for a b
    by (simp_all add: weight_of_def none_new)
  have "has_node g2 i"
    using i_in by (simp add: has_node_nodes_eq[OF g2(2)] hn1)
  then obtain g3 where g3: "remove_node g2 i = Inr g3"
    using remove_node_present by blast
  from remove_node_Inr[OF g3] have
    n3: "nodes g3 = filter (\<lambda>p. fst p \<noteq> i) (nodes g2)" and
    e3: "\<And>a b. edge_value g3 a b = (if a = i \<or> b = i then None else edge_value g2 a b)"
    by auto
  have "has_node g3 j"
    using j_in ij by (auto simp add: has_node_iff node_ids_def n3 g2(2) g1_def)
  then obtain g4 where g4: "remove_node g3 j = Inr g4"
    using remove_node_present by blast
  from remove_node_Inr[OF g4] have
    n4: "nodes g4 = filter (\<lambda>p. fst p \<noteq> j) (nodes g3)" and
    e4: "\<And>a b. edge_value g4 a b = (if a = j \<or> b = j then None else edge_value g3 a b)"
    by auto
  have run: "merge_nodes g i j = Inr g4"
    by (simp add: unfold ed g2(1) g3 g4 and_then_def at_graph_def)
  have nodes4: "nodes g4 = filter (\<lambda>p. fst p \<noteq> i \<and> fst p \<noteq> j) (nodes g) @ [(new_node, A)]"
    using ni nj by (auto simp add: n4 n3 g2(2) g1_def intro: filter_cong)
  have edges4: "edge_value g4 a b =
        (if a = i \<or> a = j \<or> b = i \<or> b = j then None
         else if a = new_node then
           (if moved_out i j (edges_data g) b = [] then None
            else Some (sum_list (moved_out i j (edges_data g) b)))
         else if b = new_node then
           (if moved_in i j (edges_data g) a = [] then None
            else Some (sum_list (moved_in i j (edges_data g) a)))
         else edge_value g a b)" for a b
  proof (cases "a = i \<or> a = j \<or> b = i \<or> b = j")
    case True
    then show ?thesis by (auto simp add: e4 e3)
  next
    case False
    then have "edge_value g4 a b = edge_value g2 a b" by (simp add: e4 e3)
    also have "\<dots> = (if a = new_node then
           (if moved_out i j (edges_data g) b = [] then None
            else Some (sum_list (moved_out i j (edges_data g) b)))
         else if b = new_node then
           (if moved_in i j (edges_data g) a = [] then None
            else Some (sum_list (moved_in i j (edges_data g) a)))
         else edge_value g a b)"
      using False by (simp add: e2 none_new w_new) (simp add: ev1)
    finally show ?thesis using False by simp
  qed
  show ?thesis
    using run nodes4 edges4 unfolding new_node_def A_def by blast
qed

lemma map_of_filter_keep:
  "map_of (filter (\<lambda>p. Q (fst p)) al @ [(k, v)]) n =
     (if n = k then (if Q k then (case map_of al k of None \<Rightarrow> Some v | Some x \<Rightarrow> Some x) else Some v)
      else if Q n then map_of al n else None)"
  by (induction al) (auto simp add: map_add_def split: option.splits)

text \<open>
  Claim C3. In a graph that contains the distinct nodes \<open>i\<close> and \<open>j\<close>, each with a value,
  their labels not both empty, \<^verbatim>\<open>merge_nodes(i, j)\<close> succeeds; it removes \<open>i\<close> and \<open>j\<close> and
  creates exactly one node, whose id is the greatest id of the graph plus one and was not
  a node before, whose value is the average of the two values weighted by the lengths
  of the two labels, whose label is the label of \<open>i\<close> followed by the label of \<open>j\<close>, and
  whose bounds are the least of the two lower bounds and the greatest of the two upper
  bounds. Every other node stays as it is.
\<close>

theorem merge_nodes_creates_weighted_node:
  assumes "wf_graph g" and "i \<noteq> j"
    and "node_attrs g i = Some ai" and "node_attrs g j = Some aj"
    and "nvalue ai = Some vi" and "nvalue aj = Some vj"
    and "0 < length (get_label i ai) + length (get_label j aj)"
  shows "\<exists>g'. merge_nodes g i j = Inr g' \<and>
     Max (set (node_ids g)) + 1 \<notin> set (node_ids g) \<and>
     node_ids g' = filter (\<lambda>n. n \<noteq> i \<and> n \<noteq> j) (node_ids g) @ [Max (set (node_ids g)) + 1] \<and>
     node_attrs g' (Max (set (node_ids g)) + 1) =
       Some \<lparr>nvalue = Some ((vi * real (length (get_label i ai))
                               + vj * real (length (get_label j aj)))
                             / real (length (get_label i ai) + length (get_label j aj))),
             label = Some (get_label i ai @ get_label j aj),
             min_value = Some (min (get_min_value ai vi) (get_min_value aj vj)),
             max_value = Some (max (get_max_value ai vi) (get_max_value aj vj)),
             importance = None\<rparr> \<and>
     (\<forall>n. n \<noteq> Max (set (node_ids g)) + 1 \<longrightarrow>
          node_attrs g' n = (if n = i \<or> n = j then None else node_attrs g n))"
proof -
  let ?new = "Max (set (node_ids g)) + 1"
  from merge_nodes_result[OF assms] obtain g' where
    run: "merge_nodes g i j = Inr g'" and
    n: "nodes g' = filter (\<lambda>p. fst p \<noteq> i \<and> fst p \<noteq> j) (nodes g) @
       [(?new,
         \<lparr>nvalue = Some ((vi * real (length (get_label i ai)) + vj * real (length (get_label j aj)))
                          / real (length (get_label i ai) + length (get_label j aj))),
          label = Some (get_label i ai @ get_label j aj),
          min_value = Some (min (get_min_value ai vi) (get_min_value aj vj)),
          max_value = Some (max (get_max_value ai vi) (get_max_value aj vj)),
          importance = None\<rparr>)]"
    by blast
  have fresh: "?new \<notin> set (node_ids g)" by (rule new_node_fresh)
  then have none: "map_of (nodes g) ?new = None"
    by (simp add: node_ids_def map_of_eq_None_iff)
  have ids: "node_ids g' = filter (\<lambda>n. n \<noteq> i \<and> n \<noteq> j) (node_ids g) @ [?new]"
    by (simp add: node_ids_def n filter_map comp_def)
  have attrs: "node_attrs g' m =
      (if m = ?new then Some \<lparr>nvalue = Some ((vi * real (length (get_label i ai))
                               + vj * real (length (get_label j aj)))
                             / real (length (get_label i ai) + length (get_label j aj))),
             label = Some (get_label i ai @ get_label j aj),
             min_value = Some (min (get_min_value ai vi) (get_min_value aj vj)),
             max_value = Some (max (get_max_value ai vi) (get_max_value aj vj)),
             importance = None\<rparr>
       else if m \<noteq> i \<and> m \<noteq> j then node_attrs g m else None)" for m
    unfolding node_attrs_def n
    by (subst map_of_filter_keep[of "\<lambda>k. k \<noteq> i \<and> k \<noteq> j"]) (simp add: none)
  show ?thesis
    using run fresh ids attrs by auto
qed

text \<open>
  The example of the claim: the nodes 0 and 1 with the values 0.2 and 0.8 and the edge
  from 0 to 1 of weight 0.5 become the single node 2 with value 0.5, label \<open>[0, 1]\<close>,
  lower bound 0.2 and upper bound 0.8.
\<close>

theorem merge_nodes_creates_weighted_node_witness:
  "wf_graph two_linked_nodes \<and>
   (\<exists>g'. merge_nodes two_linked_nodes 0 1 = Inr g' \<and> node_ids g' = [2] \<and>
      node_attrs g' 2 =
        Some \<lparr>nvalue = Some (1 / 2), label = Some [0, 1], min_value = Some (1 / 5),
              max_value = Some (4 / 5), importance = None\<rparr>)"
proof -
  have wf: "wf_graph two_linked_nodes"
    by (simp add: two_linked_nodes_eq wf_graph_def node_ids_def)
  have a0: "node_attrs two_linked_nodes 0 = Some (no_attrs\<lparr>nvalue := Some (1 / 5), label := Some [0]\<rparr>)"
    and a1: "node_attrs two_linked_nodes 1 = Some (no_attrs\<lparr>nvalue := Some (4 / 5), label := Some [1]\<rparr>)"
    by (simp_all add: two_linked_nodes_eq node_attrs_def)
  have ids: "node_ids two_linked_nodes = [0, 1]"
    by (simp add: two_linked_nodes_eq node_ids_def)
  have "\<exists>g'. merge_nodes two_linked_nodes 0 1 = Inr g' \<and> node_ids g' = [2] \<and>
      node_attrs g' 2 =
        Some \<lparr>nvalue = Some (1 / 2), label = Some [0, 1], min_value = Some (1 / 5),
              max_value = Some (4 / 5), importance = None\<rparr>"
    using merge_nodes_creates_weighted_node[OF wf _ a0 a1, of "1 / 5" "4 / 5"]
    by (simp add: ids get_label_def get_min_value_def get_max_value_def no_attrs_def) blast
  then show ?thesis using wf by simp
qed

text \<open>
  When both labels are empty the weights sum to 0: the division raises before the graph
  is changed.
\<close>

lemma merge_nodes_empty_labels:
  assumes "node_attrs g i = Some ai" and "node_attrs g j = Some aj"
    and "nvalue ai = Some vi" and "nvalue aj = Some vj"
    and "label ai = Some []" and "label aj = Some []"
  shows "merge_nodes g i j = Inl (ZeroDivisionError, g)"
  using assms by (simp add: merge_nodes_rnd_def get_label_def Let_def)

subsection \<open>Invariants of loops\<close>

lemma for_each_preserves:
  assumes "for_each body xs g = Inr g'" and "P g"
    and "\<And>x h h'. x \<in> set xs \<Longrightarrow> P h \<Longrightarrow> body x h = Inr h' \<Longrightarrow> P h'"
  shows "P g'"
  using assms
proof (induction xs arbitrary: g)
  case Nil
  then show ?case by simp
next
  case (Cons x xs)
  from Cons.prems(1) obtain h where h: "body x g = Inr h" "for_each body xs h = Inr g'"
    by (auto simp add: and_then_def split: sum.splits)
  have "P h" using Cons.prems(3)[of x g h] Cons.prems(2) h(1) by simp
  then show ?case
    by (rule Cons.IH[OF h(2)]) (rule Cons.prems(3), simp_all)
qed

lemma and_then_Inr: "and_then r f = Inr g' \<longleftrightarrow> (\<exists>h. r = Inr h \<and> f h = Inr g')"
  by (cases r) (simp_all add: and_then_def)

lemma at_graph_Inr [simp]: "at_graph g r = Inr g' \<longleftrightarrow> r = Inr g'"
  by (cases r) (simp_all add: at_graph_def)

subsection \<open>Self-loops\<close>

lemma no_self_loops_iff: "no_self_loops g \<longleftrightarrow> (\<forall>a. edge_value g a a = None)"
proof
  assume "no_self_loops g"
  then have "\<And>a. (a, a) \<notin> fst ` set (edges g)"
    by (force simp add: no_self_loops_def list_all_iff)
  then show "\<forall>a. edge_value g a a = None"
    by (simp add: edge_value_def map_of_eq_None_iff)
next
  assume a: "\<forall>a. edge_value g a a = None"
  show "no_self_loops g"
    unfolding no_self_loops_def list_all_iff
  proof
    fix e assume e: "e \<in> set (edges g)"
    show "fst (fst e) \<noteq> snd (fst e)"
    proof
      assume eq: "fst (fst e) = snd (fst e)"
      then have "fst e = (fst (fst e), fst (fst e))" by (simp add: prod_eq_iff)
      then have "(fst (fst e), fst (fst e)) \<in> fst ` set (edges g)" using e by force
      then show False using a by (simp add: edge_value_def map_of_eq_None_iff)
    qed
  qed
qed

lemma no_self_loops_add_edge:
  "no_self_loops g \<Longrightarrow> u \<noteq> v \<Longrightarrow> no_self_loops (add_edge g u v w)"
  by (simp add: no_self_loops_iff edge_value_add_edge)

lemma no_self_loops_remove_node:
  "no_self_loops g \<Longrightarrow> remove_node g n = Inr g' \<Longrightarrow> no_self_loops g'"
  using remove_node_Inr[of g n g'] by (simp add: no_self_loops_iff)

lemma no_self_loops_add_node: "no_self_loops (add_node g n a) = no_self_loops g"
  by (simp add: no_self_loops_def)

lemma rehome_successor_no_self_loops:
  "no_self_loops g \<Longrightarrow> rehome_successor m old new s g = Inr g' \<Longrightarrow> no_self_loops g'"
  by (auto simp add: rehome_successor_def Let_def no_self_loops_add_edge
      split: if_splits option.splits)

lemma rehome_predecessor_no_self_loops:
  "no_self_loops g \<Longrightarrow> rehome_predecessor m old new s g = Inr g' \<Longrightarrow> no_self_loops g'"
  by (auto simp add: rehome_predecessor_def Let_def no_self_loops_add_edge
      split: if_splits option.splits)

lemma reassign_edges_no_self_loops:
  assumes "no_self_loops g" and "reassign_edges m item g = Inr g'"
  shows "no_self_loops g'"
proof -
  from assms(2) obtain g1 g2 where
    s: "for_each (rehome_successor m (fst item) (snd item)) (successors g (fst item)) g = Inr g1"
    and p: "for_each (rehome_predecessor m (fst item) (snd item))
              (predecessors g1 (fst item)) g1 = Inr g2"
    and r: "remove_node g2 (fst item) = Inr g'"
    by (auto simp add: reassign_edges_def Let_def and_then_Inr split: if_splits)
  have "no_self_loops g1"
    using for_each_preserves[OF s, of no_self_loops] assms(1) rehome_successor_no_self_loops
    by blast
  then have "no_self_loops g2"
    using for_each_preserves[OF p, of no_self_loops] rehome_predecessor_no_self_loops
    by blast
  then show ?thesis using r by (rule no_self_loops_remove_node)
qed

lemma create_cluster_node_edges:
  "create_cluster_node m c g = Inr g' \<Longrightarrow> edges g' = edges g"
  by (auto simp add: create_cluster_node_rnd_def split: list.splits option.splits sum.splits)

lemma merge_clusters_no_self_loops:
  assumes "no_self_loops g" and "merge_clusters g c = Inr g'"
  shows "no_self_loops g'"
proof -
  from assms(2) obtain m cl g1 where
    c: "for_each (create_cluster_node m) cl g = Inr g1"
    and r: "for_each (reassign_edges m) m g1 = Inr g'"
    by (auto simp add: merge_clusters_rnd_def and_then_Inr split: sum.splits prod.splits)
  have "\<And>x h h'. no_self_loops h \<Longrightarrow> create_cluster_node m x h = Inr h' \<Longrightarrow> no_self_loops h'"
    by (auto simp add: no_self_loops_def dest: create_cluster_node_edges)
  then have "no_self_loops g1"
    using for_each_preserves[OF c, of no_self_loops] assms(1) by blast
  then show ?thesis
    using for_each_preserves[OF r, of no_self_loops] reassign_edges_no_self_loops by blast
qed

lemma merge_by_intervals_no_self_loops:
  "no_self_loops g \<Longrightarrow> merge_by_intervals g bs = Inr g' \<Longrightarrow> no_self_loops g'"
  by (auto simp add: merge_by_intervals_rnd_def Let_def merge_clusters_no_self_loops
      split: if_splits)

subsection \<open>Merges and self-loops\<close>

lemma merge_nodes_Inr_pre:
  assumes "merge_nodes g i j = Inr g'"
  shows "\<exists>ai aj vi vj. node_attrs g i = Some ai \<and> node_attrs g j = Some aj \<and>
           nvalue ai = Some vi \<and> nvalue aj = Some vj \<and>
           0 < length (get_label i ai) + length (get_label j aj) \<and> i \<noteq> j"
proof -
  from assms obtain ai aj vi vj where
    a: "node_attrs g i = Some ai" "node_attrs g j = Some aj"
       "nvalue ai = Some vi" "nvalue aj = Some vj"
    by (auto simp add: merge_nodes_rnd_def split: option.splits)
  have sz: "0 < length (get_label i ai) + length (get_label j aj)"
    using assms by (auto simp add: merge_nodes_rnd_def a Let_def split: if_splits)
  have "i \<noteq> j"
  proof
    assume "i = j"
    with assms sz obtain g2 g3 where "remove_node g2 i = Inr g3" "remove_node g3 i = Inr g'"
      by (auto simp add: merge_nodes_rnd_def a Let_def and_then_Inr split: if_splits)
    then have "has_node g3 i" "nodes g3 = filter (\<lambda>p. fst p \<noteq> i) (nodes g2)"
      using remove_node_Inr[of g2 i g3] by (auto simp add: remove_node_def split: if_splits)
    then show False by (auto simp add: has_node_iff node_ids_def)
  qed
  then show ?thesis using a sz by blast
qed

lemma moved_out_outside [simp]:
  "wf_graph g \<Longrightarrow> b \<notin> set (node_ids g) \<Longrightarrow> moved_out i j (edges_data g) b = []"
  using edges_data_entry[of g] by (auto simp add: moved_out_def filter_empty_conv)

lemma moved_in_outside [simp]:
  "wf_graph g \<Longrightarrow> a \<notin> set (node_ids g) \<Longrightarrow> moved_in i j (edges_data g) a = []"
  using edges_data_entry[of g] by (auto simp add: moved_in_def filter_empty_conv)

lemma merge_nodes_no_self_loops:
  assumes "wf_graph g" and "no_self_loops g" and "merge_nodes g i j = Inr g'"
  shows "no_self_loops g'"
proof -
  from merge_nodes_Inr_pre[OF assms(3)] obtain ai aj vi vj where
    a: "node_attrs g i = Some ai" "node_attrs g j = Some aj"
       "nvalue ai = Some vi" "nvalue aj = Some vj"
       "0 < length (get_label i ai) + length (get_label j aj)" "i \<noteq> j"
    by blast
  from merge_nodes_result[OF assms(1) a(6) a(1-5)] assms(3) have
    e: "\<And>a b. edge_value g' a b =
        (if a = i \<or> a = j \<or> b = i \<or> b = j then None
         else if a = Max (set (node_ids g)) + 1 then
           (if moved_out i j (edges_data g) b = [] then None
            else Some (sum_list (moved_out i j (edges_data g) b)))
         else if b = Max (set (node_ids g)) + 1 then
           (if moved_in i j (edges_data g) a = [] then None
            else Some (sum_list (moved_in i j (edges_data g) a)))
         else edge_value g a b)"
    by auto
  have "edge_value g' n n = None" for n
    using assms(1,2) new_node_fresh[of g] by (simp add: e no_self_loops_iff)
  then show ?thesis by (simp add: no_self_loops_iff)
qed

lemma loop_example_eq:
  "loop_example =
     \<lparr>nodes = [(0, no_attrs\<lparr>nvalue := Some (1 / 5), label := Some [0]\<rparr>),
               (1, no_attrs\<lparr>nvalue := Some (4 / 5), label := Some [1]\<rparr>),
               (2, no_attrs\<lparr>nvalue := Some (1 / 2), label := Some [2]\<rparr>)],
      edges = [((0, 1), 1 / 2), ((2, 2), 1)]\<rparr>"
  by (simp add: loop_example_def two_isolated_nodes_eq add_edge_def add_node_def ensure_node_def
      has_node_def node_attrs_def Let_def)

lemma merge_nodes_loop_example:
  "merge_nodes loop_example 0 1 =
     Inr \<lparr>nodes = [(2, no_attrs\<lparr>nvalue := Some (1 / 2), label := Some [2]\<rparr>),
                   (3, \<lparr>nvalue = Some (1 / 2), label = Some [0, 1], min_value = Some (1 / 5),
                        max_value = Some (4 / 5), importance = None\<rparr>)],
          edges = [((2, 2), 1)]\<rparr>"
  by (simp add: loop_example_eq merge_nodes_rnd_def node_attrs_def get_label_def no_attrs_def
      get_min_value_def get_max_value_def node_ids_def add_node_def edges_data_def
      reconnect_rnd_def reconnect_source_rnd_def reconnect_target_rnd_def and_then_def at_graph_def
      remove_edge_def remove_node_def has_edge_def edge_value_def has_node_def Let_def
      set_edge_value_def add_edge_def ensure_node_def)

lemmas eval_defs =
  merge_nodes_rnd_def node_attrs_def get_label_def no_attrs_def
  get_min_value_def get_max_value_def node_ids_def add_node_def edges_data_def
  reconnect_rnd_def reconnect_source_rnd_def reconnect_target_rnd_def and_then_def at_graph_def
  remove_edge_def remove_node_def has_edge_def edge_value_def has_node_def Let_def
  set_edge_value_def add_edge_def ensure_node_def
  merge_clusters_rnd_def cluster_mapping_def create_cluster_node_rnd_def initial_acc_def
  accumulate_node_rnd_def reassign_edges_def rehome_successor_def rehome_predecessor_def
  mapped_def successors_def predecessors_def update_attrs_def
  merge_by_intervals_rnd_def interval_cluster_def dict_clusters_list_def

lemma merge_nodes_two_linked:
  "merge_nodes two_linked_nodes 0 1 =
     Inr \<lparr>nodes = [(2, \<lparr>nvalue = Some (1 / 2), label = Some [0, 1], min_value = Some (1 / 5),
                        max_value = Some (4 / 5), importance = None\<rparr>)],
          edges = []\<rparr>"
  by (simp add: two_linked_nodes_eq eval_defs)

lemma merge_clusters_two_linked:
  "merge_clusters two_linked_nodes (ClusterList [[0, 1]]) =
     Inr \<lparr>nodes = [(2, \<lparr>nvalue = Some (1 / 2), label = Some [0, 1], min_value = Some (1 / 5),
                        max_value = Some (4 / 5), importance = Some 0\<rparr>)],
          edges = []\<rparr>"
  by (simp add: two_linked_nodes_eq eval_defs)

lemma merge_by_intervals_two_linked:
  "merge_by_intervals two_linked_nodes [1 / 2] =
     Inr \<lparr>nodes = [(2, \<lparr>nvalue = Some (1 / 5), label = Some [0], min_value = Some (1 / 5),
                        max_value = Some (1 / 5), importance = Some 0\<rparr>),
                   (3, \<lparr>nvalue = Some (4 / 5), label = Some [1], min_value = Some (4 / 5),
                        max_value = Some (4 / 5), importance = Some 0\<rparr>)],
          edges = [((2, 3), 1 / 2)]\<rparr>"
  by (simp add: two_linked_nodes_eq eval_defs)

lemma wf_two_linked_nodes: "wf_graph two_linked_nodes"
  by (simp add: two_linked_nodes_eq wf_graph_def node_ids_def)

text \<open>
  Claim C5, as amended. No merge creates a self-loop: when the graph has no self-loop
  before \<^verbatim>\<open>merge_nodes\<close>, \<^verbatim>\<open>merge_clusters\<close> or \<^verbatim>\<open>merge_by_intervals\<close>, it has none when the
  operation has completed.
\<close>

theorem merges_create_no_self_loop:
  assumes "wf_graph g" and "no_self_loops g"
  shows "(merge_nodes g i j = Inr g' \<longrightarrow> no_self_loops g') \<and>
         (merge_clusters g clusters = Inr g' \<longrightarrow> no_self_loops g') \<and>
         (merge_by_intervals g intervals = Inr g' \<longrightarrow> no_self_loops g')"
  using assms merge_nodes_no_self_loops merge_clusters_no_self_loops
    merge_by_intervals_no_self_loops by blast

text \<open>
  The three operations on the two nodes joined by one edge: each completes, and the
  graph it leaves has no self-loop.
\<close>

theorem merges_create_no_self_loop_witness:
  "wf_graph two_linked_nodes \<and> no_self_loops two_linked_nodes \<and>
   (\<exists>g'. merge_nodes two_linked_nodes 0 1 = Inr g' \<and> no_self_loops g') \<and>
   (\<exists>g'. merge_clusters two_linked_nodes (ClusterList [[0, 1]]) = Inr g' \<and> no_self_loops g') \<and>
   (\<exists>g'. merge_by_intervals two_linked_nodes [1 / 2] = Inr g' \<and> no_self_loops g')"
proof -
  have n: "no_self_loops two_linked_nodes"
    by (simp add: two_linked_nodes_eq no_self_loops_def)
  obtain g1 where g1: "merge_nodes two_linked_nodes 0 1 = Inr g1"
    using merge_nodes_two_linked by blast
  have "no_self_loops g1"
    using merges_create_no_self_loop[OF wf_two_linked_nodes n, of 0 1 g1] g1 by simp
  moreover have "\<exists>g'. merge_clusters two_linked_nodes (ClusterList [[0, 1]]) = Inr g' \<and>
      no_self_loops g'"
    using merges_create_no_self_loop[OF wf_two_linked_nodes n, of _ _ _ "ClusterList [[0, 1]]"]
    by (simp add: merge_clusters_two_linked)
  moreover have "\<exists>g'. merge_by_intervals two_linked_nodes [1 / 2] = Inr g' \<and> no_self_loops g'"
    using merges_create_no_self_loop[OF wf_two_linked_nodes n, of _ _ _ _ "[1 / 2]"]
    by (simp add: merge_by_intervals_two_linked)
  ultimately show ?thesis using wf_two_linked_nodes n g1 by blast
qed

text \<open>
  Claim C5 as stated fails for a graph that has a self-loop on a node the merge does not
  touch: merging the nodes 0 and 1 of the example leaves the self-loop on node 2.
\<close>

theorem self_loop_survives_merge_counterexample:
  "wf_graph loop_example \<and>
   (\<exists>g'. merge_nodes loop_example 0 1 = Inr g' \<and> has_edge g' 2 2 \<and> \<not> no_self_loops g')"
  by (simp add: merge_nodes_loop_example)
     (simp add: loop_example_eq wf_graph_def node_ids_def has_edge_def edge_value_def
        no_self_loops_def)

subsection \<open>Edges that meet in a merge\<close>

lemma filter_key_unique:
  "distinct (map k xs) \<Longrightarrow> x \<in> set xs \<Longrightarrow> filter (\<lambda>y. k y = k x) xs = [x]"
proof (induction xs)
  case Nil
  then show ?case by simp
next
  case (Cons y ys)
  show ?case
  proof (cases "x = y")
    case True
    have "filter (\<lambda>z. k z = k y) ys = []"
      using Cons.prems(1) by (auto simp add: filter_empty_conv) (metis imageI)
    then show ?thesis using True by simp
  next
    case False
    then have "x \<in> set ys" using Cons.prems(2) by simp
    then have "k y \<noteq> k x" using Cons.prems(1) by force
    then show ?thesis using Cons \<open>x \<in> set ys\<close> by simp
  qed
qed

lemma filter_key_absent: "c \<notin> k ` set xs \<Longrightarrow> filter (\<lambda>y. k y = c) xs = []"
  by (auto simp add: filter_empty_conv)

lemma filter_disj_disjoint:
  "(\<And>x. \<not> (P x \<and> Q x)) \<Longrightarrow>
   sum_list (map f (filter (\<lambda>x. P x \<or> Q x) xs)) =
     sum_list (map f (filter P xs)) + (sum_list (map f (filter Q xs)) :: real)"
  by (induction xs) auto

lemma edges_with_key:
  assumes "wf_graph g"
  shows "map (\<lambda>e. snd (snd e)) (filter (\<lambda>e. edge_key e = (a, b)) (edges_data g)) =
           (case edge_value g a b of None \<Rightarrow> [] | Some w \<Rightarrow> [w])"
proof (cases "edge_value g a b")
  case None
  then have "\<not> has_edge g a b" by (simp add: has_edge_def)
  then have "(a, b) \<notin> edge_key ` set (edges_data g)"
    using edge_keys_edges_data[OF assms] by simp
  then show ?thesis using None by (simp add: filter_key_absent)
next
  case (Some w)
  then have "has_edge g a b" by (simp add: has_edge_def)
  then obtain e where e: "e \<in> set (edges_data g)" "edge_key e = (a, b)"
    using edge_keys_edges_data[OF assms, of a b] by auto
  have "filter (\<lambda>y. edge_key y = edge_key e) (edges_data g) = [e]"
    using distinct_edges_data[OF assms] e(1) by (rule filter_key_unique)
  moreover have "snd (snd e) = w"
    using edges_data_entry[OF assms e(1)] e(2) Some by (simp add: edge_key_def)
  ultimately show ?thesis using Some e(2) by simp
qed

lemma moved_out_split:
  assumes "i \<noteq> j"
  shows "sum_list (moved_out i j es b) =
           sum_list (map (\<lambda>e. snd (snd e)) (filter (\<lambda>e. edge_key e = (i, b)) es)) +
           sum_list (map (\<lambda>e. snd (snd e)) (filter (\<lambda>e. edge_key e = (j, b)) es))"
proof -
  have "moved_out i j es b =
      map (\<lambda>e. snd (snd e)) (filter (\<lambda>e. edge_key e = (i, b) \<or> edge_key e = (j, b)) es)"
    unfolding moved_out_def edge_key_def
    by (rule arg_cong[where f = "map _"], rule filter_cong) auto
  then show ?thesis
    using assms by (simp add: filter_disj_disjoint)
qed

lemma moved_in_split:
  assumes "i \<noteq> j"
  shows "sum_list (moved_in i j es a) =
           sum_list (map (\<lambda>e. snd (snd e)) (filter (\<lambda>e. edge_key e = (a, i)) es)) +
           sum_list (map (\<lambda>e. snd (snd e)) (filter (\<lambda>e. edge_key e = (a, j)) es))"
proof -
  have "moved_in i j es a =
      map (\<lambda>e. snd (snd e)) (filter (\<lambda>e. edge_key e = (a, i) \<or> edge_key e = (a, j)) es)"
    unfolding moved_in_def edge_key_def
    by (rule arg_cong[where f = "map _"], rule filter_cong) auto
  then show ?thesis
    using assms by (simp add: filter_disj_disjoint)
qed

lemma moved_out_empty:
  assumes "wf_graph g"
  shows "moved_out i j (edges_data g) b = [] \<longleftrightarrow> \<not> has_edge g i b \<and> \<not> has_edge g j b"
proof -
  have "moved_out i j (edges_data g) b = [] \<longleftrightarrow>
      (\<forall>e\<in>set (edges_data g). edge_key e \<noteq> (i, b) \<and> edge_key e \<noteq> (j, b))"
    by (auto simp add: moved_out_def filter_empty_conv edge_key_def)
  also have "\<dots> \<longleftrightarrow> (i, b) \<notin> edge_key ` set (edges_data g) \<and> (j, b) \<notin> edge_key ` set (edges_data g)"
    by force
  finally show ?thesis using edge_keys_edges_data[OF assms] by simp
qed

lemma moved_in_empty:
  assumes "wf_graph g"
  shows "moved_in i j (edges_data g) a = [] \<longleftrightarrow> \<not> has_edge g a i \<and> \<not> has_edge g a j"
proof -
  have "moved_in i j (edges_data g) a = [] \<longleftrightarrow>
      (\<forall>e\<in>set (edges_data g). edge_key e \<noteq> (a, i) \<and> edge_key e \<noteq> (a, j))"
    by (auto simp add: moved_in_def filter_empty_conv edge_key_def)
  also have "\<dots> \<longleftrightarrow> (a, i) \<notin> edge_key ` set (edges_data g) \<and> (a, j) \<notin> edge_key ` set (edges_data g)"
    by force
  finally show ?thesis using edge_keys_edges_data[OF assms] by simp
qed

lemma moved_out_sum:
  "wf_graph g \<Longrightarrow> i \<noteq> j \<Longrightarrow>
   sum_list (moved_out i j (edges_data g) b) = weight_of g i b + weight_of g j b"
  by (simp add: moved_out_split edges_with_key weight_of_def split: option.splits)

lemma moved_in_sum:
  "wf_graph g \<Longrightarrow> i \<noteq> j \<Longrightarrow>
   sum_list (moved_in i j (edges_data g) a) = weight_of g a i + weight_of g a j"
  by (simp add: moved_in_split edges_with_key weight_of_def split: option.splits)

text \<open>
  The pairwise merge sums: the edge from the new node to a node \<open>b\<close> outside the merge
  exists when \<open>i\<close> or \<open>j\<close> had an edge to \<open>b\<close>, and carries the sum of their values; the same
  holds for the edges into the new node; every edge between other nodes is kept, and no
  edge touches \<open>i\<close> or \<open>j\<close> any more.
\<close>

lemma merge_nodes_sums_edge_values:
  assumes "wf_graph g" and "merge_nodes g i j = Inr g'"
    and "a \<noteq> i" "a \<noteq> j" "b \<noteq> i" "b \<noteq> j"
  shows "edge_value g' a b =
           (if a = Max (set (node_ids g)) + 1 then
              (if has_edge g i b \<or> has_edge g j b
               then Some (weight_of g i b + weight_of g j b) else None)
            else if b = Max (set (node_ids g)) + 1 then
              (if has_edge g a i \<or> has_edge g a j
               then Some (weight_of g a i + weight_of g a j) else None)
            else edge_value g a b)"
proof -
  from merge_nodes_Inr_pre[OF assms(2)] obtain ai aj vi vj where
    p: "node_attrs g i = Some ai" "node_attrs g j = Some aj"
       "nvalue ai = Some vi" "nvalue aj = Some vj"
       "0 < length (get_label i ai) + length (get_label j aj)" "i \<noteq> j"
    by blast
  from merge_nodes_result[OF assms(1) p(6) p(1-5)] assms(2) have
    e: "\<And>a b. edge_value g' a b =
        (if a = i \<or> a = j \<or> b = i \<or> b = j then None
         else if a = Max (set (node_ids g)) + 1 then
           (if moved_out i j (edges_data g) b = [] then None
            else Some (sum_list (moved_out i j (edges_data g) b)))
         else if b = Max (set (node_ids g)) + 1 then
           (if moved_in i j (edges_data g) a = [] then None
            else Some (sum_list (moved_in i j (edges_data g) a)))
         else edge_value g a b)"
    by auto
  show ?thesis
    using assms(3-6)
    by (simp add: e moved_out_empty[OF assms(1)] moved_in_empty[OF assms(1)]
        moved_out_sum[OF assms(1) p(6)] moved_in_sum[OF assms(1) p(6)])
qed

lemma fan_example_eq:
  "fan_example =
     \<lparr>nodes = [(0, no_attrs\<lparr>nvalue := Some (1 / 5), label := Some [0]\<rparr>),
               (1, no_attrs\<lparr>nvalue := Some (4 / 5), label := Some [1]\<rparr>),
               (2, no_attrs\<lparr>nvalue := Some (1 / 2), label := Some [2]\<rparr>)],
      edges = [((0, 2), 1), ((1, 2), 2), ((2, 0), 3), ((2, 1), 4)]\<rparr>"
  by (simp add: fan_example_def two_isolated_nodes_eq add_edge_def add_node_def ensure_node_def
      has_node_def node_attrs_def Let_def)

text \<open>
  Claim C1 fails for \<^verbatim>\<open>merge_clusters\<close>. In the example the nodes 0 and 1 both have an edge
  to node 2, of weights 1 and 2, and both have an edge from node 2, of weights 3 and 4.
  \<^verbatim>\<open>merge_nodes(0, 1)\<close> gives the new node 3 the edges of weights \<open>1 + 2\<close> and \<open>3 + 4\<close>;
  \<^verbatim>\<open>merge_clusters([[0, 1]])\<close> gives it the edges of weights 2 and 4: \<^verbatim>\<open>add_edge\<close> overwrites
  the value written for node 0 with the value of node 1.
\<close>

theorem merge_clusters_overwrites_edge_value:
  "merge_nodes fan_example 0 1 =
     Inr \<lparr>nodes = [(2, no_attrs\<lparr>nvalue := Some (1 / 2), label := Some [2]\<rparr>),
                   (3, \<lparr>nvalue = Some (1 / 2), label = Some [0, 1], min_value = Some (1 / 5),
                        max_value = Some (4 / 5), importance = None\<rparr>)],
          edges = [((3, 2), 3), ((2, 3), 7)]\<rparr> \<and>
   merge_clusters fan_example (ClusterList [[0, 1]]) =
     Inr \<lparr>nodes = [(2, no_attrs\<lparr>nvalue := Some (1 / 2), label := Some [2]\<rparr>),
                   (3, \<lparr>nvalue = Some (1 / 2), label = Some [0, 1], min_value = Some (1 / 5),
                        max_value = Some (4 / 5), importance = Some 0\<rparr>)],
          edges = [((3, 2), 2), ((2, 3), 4)]\<rparr>"
  by (simp add: fan_example_eq eval_defs)

subsection \<open>Validation of the partition\<close>

lemma assign_cluster_result:
  "assign_cluster g new_id c m =
     (if list_all (has_node g) c \<and> distinct c \<and> set c \<inter> fst ` set m = {}
      then Inr (m @ map (\<lambda>n. (n, new_id)) c) else Inl AssertionError)"
proof (induction c arbitrary: m)
  case Nil
  then show ?case by simp
next
  case (Cons n c)
  have k: "map_of m n = None \<longleftrightarrow> n \<notin> fst ` set m"
    by (simp add: map_of_eq_None_iff)
  show ?case
  proof (cases "has_node g n \<and> n \<notin> fst ` set m")
    case True
    then have u: "AList.update n new_id m = m @ [(n, new_id)]"
      by (simp add: update_fresh)
    have "assign_cluster g new_id (n # c) m = assign_cluster g new_id c (m @ [(n, new_id)])"
      using True by (simp add: k u)
    then show ?thesis
      using True by (auto simp add: Cons.IH)
  next
    case False
    then show ?thesis by (auto simp add: k)
  qed
qed

lemma list_id_mapping_result:
  "list_id_mapping g new_id cs m =
     (if list_all (has_node g) (concat cs) \<and> distinct (concat cs)
         \<and> set (concat cs) \<inter> fst ` set m = {}
      then Inr (m @ list_mapping new_id cs) else Inl AssertionError)"
proof (induction cs arbitrary: m new_id)
  case Nil
  then show ?case by simp
next
  case (Cons c cs)
  show ?case
  proof (cases "list_all (has_node g) c \<and> distinct c \<and> set c \<inter> fst ` set m = {}")
    case True
    then have "list_id_mapping g new_id (c # cs) m =
        list_id_mapping g (new_id + 1) cs (m @ map (\<lambda>n. (n, new_id)) c)"
      by (simp add: assign_cluster_result)
    then show ?thesis
      using True by (simp add: Cons.IH image_Un image_image Int_Un_distrib) blast
  next
    case False
    then have "list_id_mapping g new_id (c # cs) m = Inl AssertionError"
      by (auto simp add: assign_cluster_result)
    then show ?thesis using False by auto
  qed
qed

lemma cluster_mapping_list:
  "cluster_mapping g (ClusterList cs) =
     (if nodes g = [] then Inl ValueError
      else if valid_clusters g cs
           then Inr (list_mapping (Max (set (node_ids g)) + 1) cs, cs)
           else Inl AssertionError)"
  by (simp add: cluster_mapping_def list_id_mapping_result valid_clusters_def)

text \<open>
  The list branch validates before it changes anything: when a cluster names an id that
  is not a node, or an id is named twice, \<^verbatim>\<open>merge_clusters\<close> raises and the graph is as it
  was (\<^verbatim>\<open>AssertionError\<close>; \<^verbatim>\<open>ValueError\<close> from \<^verbatim>\<open>max\<close> when the graph has no node at all).
\<close>

lemma merge_clusters_list_validates:
  "\<not> valid_clusters g cs \<Longrightarrow>
   merge_clusters g (ClusterList cs) =
     Inl (if nodes g = [] then ValueError else AssertionError, g)"
  by (simp add: merge_clusters_rnd_def cluster_mapping_list)

text \<open>
  Claim C4 fails for the dictionary branch, which validates nothing. On the graph of the
  two nodes 0 and 1: the dictionary \<open>{2: [0], 3: [0]}\<close> names node 0 in two clusters and is
  accepted, node 0 going to the cluster named last; the dictionary \<open>{2: [0], 3: [7]}\<close>
  names the id 7, which is not a node, and \<^verbatim>\<open>KeyError\<close> is raised only after node 2 has
  been added to the graph. The dictionary \<open>{0: 2}\<close> of the docstring (old id to new id)
  raises \<^verbatim>\<open>TypeError\<close>.
\<close>

theorem merge_clusters_dict_not_validated:
  "merge_clusters two_isolated_nodes (ClusterDict [(2, OldIds [0]), (3, OldIds [0])]) =
     Inr \<lparr>nodes = [(1, no_attrs\<lparr>nvalue := Some (4 / 5), label := Some [1]\<rparr>),
                   (3, \<lparr>nvalue = Some (1 / 5), label = Some [0], min_value = Some (1 / 5),
                        max_value = Some (1 / 5), importance = Some 0\<rparr>)],
          edges = []\<rparr> \<and>
   merge_clusters two_isolated_nodes (ClusterDict [(2, OldIds [0]), (3, OldIds [7])]) =
     Inl (KeyError,
          \<lparr>nodes = [(0, no_attrs\<lparr>nvalue := Some (1 / 5), label := Some [0]\<rparr>),
                    (1, no_attrs\<lparr>nvalue := Some (4 / 5), label := Some [1]\<rparr>),
                    (2, \<lparr>nvalue = Some (1 / 5), label = Some [0], min_value = Some (1 / 5),
                         max_value = Some (1 / 5), importance = Some 0\<rparr>)],
           edges = []\<rparr>) \<and>
   merge_clusters two_isolated_nodes (ClusterDict [(0, NewId 2)]) =
     Inl (TypeError, two_isolated_nodes)"
  by (simp add: two_isolated_nodes_eq eval_defs)

subsection \<open>Well-formed graphs stay well-formed\<close>

lemma wf_graphI:
  "distinct (map fst (nodes g)) \<Longrightarrow> distinct (map fst (edges g)) \<Longrightarrow>
   (\<And>a b. (a, b) \<in> fst ` set (edges g) \<Longrightarrow> has_node g a \<and> has_node g b) \<Longrightarrow> wf_graph g"
  unfolding wf_graph_def has_node_iff by (metis imageI prod.collapse)

lemma wf_graph_nodes: "wf_graph g \<Longrightarrow> distinct (map fst (nodes g))"
  by (simp add: wf_graph_def)

lemma wf_graph_edges: "wf_graph g \<Longrightarrow> distinct (map fst (edges g))"
  by (simp add: wf_graph_def)

lemma wf_graph_ends:
  "wf_graph g \<Longrightarrow> (a, b) \<in> fst ` set (edges g) \<Longrightarrow> has_node g a \<and> has_node g b"
  unfolding wf_graph_def has_node_iff by force

lemma has_edge_iff: "has_edge g a b \<longleftrightarrow> (a, b) \<in> fst ` set (edges g)"
  by (simp add: has_edge_def edge_value_def map_of_eq_None_iff)

lemma wf_add_node: "wf_graph g \<Longrightarrow> wf_graph (add_node g n a)"
proof (rule wf_graphI)
  assume wf: "wf_graph g"
  show "distinct (map fst (nodes (add_node g n a)))"
    using wf_graph_nodes[OF wf] by (simp add: add_node_def distinct_update)
  show "distinct (map fst (edges (add_node g n a)))"
    using wf_graph_edges[OF wf] by simp
  show "has_node (add_node g n a) x \<and> has_node (add_node g n a) y"
    if "(x, y) \<in> fst ` set (edges (add_node g n a))" for x y
    using wf_graph_ends[OF wf, of x y] that
    by (simp add: has_node_def node_attrs_add_node)
qed

lemma wf_add_edge: "wf_graph g \<Longrightarrow> wf_graph (add_edge g u v w)"
proof (rule wf_graphI)
  assume wf: "wf_graph g"
  have "distinct (node_ids (ensure_node (ensure_node g u) v))"
    using wf_graph_nodes[OF wf] by (auto simp add: node_ids_ensure_node) (simp_all add: node_ids_def)
  then show "distinct (map fst (nodes (add_edge g u v w)))"
    by (simp add: add_edge_def Let_def node_ids_def)
  show "distinct (map fst (edges (add_edge g u v w)))"
    using wf_graph_edges[OF wf] by (simp add: add_edge_def Let_def distinct_update)
  show "has_node (add_edge g u v w) x \<and> has_node (add_edge g u v w) y"
    if "(x, y) \<in> fst ` set (edges (add_edge g u v w))" for x y
  proof -
    have "(x, y) = (u, v) \<or> (x, y) \<in> fst ` set (edges g)"
      using that by (auto simp add: add_edge_def Let_def dom_update)
    then show ?thesis
    proof
      assume "(x, y) = (u, v)"
      then show ?thesis by (simp add: has_node_def node_attrs_add_edge)
    next
      assume "(x, y) \<in> fst ` set (edges g)"
      then have "has_node g x \<and> has_node g y" by (rule wf_graph_ends[OF wf])
      then show ?thesis by (simp add: has_node_def node_attrs_add_edge)
    qed
  qed
qed

lemma wf_set_edge_value:
  "wf_graph g \<Longrightarrow> has_edge g u v \<Longrightarrow> wf_graph (set_edge_value g u v x)"
proof (rule wf_graphI)
  assume wf: "wf_graph g" and e: "has_edge g u v"
  show "distinct (map fst (nodes (set_edge_value g u v x)))"
    using wf_graph_nodes[OF wf] by simp
  show "distinct (map fst (edges (set_edge_value g u v x)))"
    using wf_graph_edges[OF wf] by (simp add: set_edge_value_def distinct_update)
  show "has_node (set_edge_value g u v x) a \<and> has_node (set_edge_value g u v x) b"
    if "(a, b) \<in> fst ` set (edges (set_edge_value g u v x))" for a b
  proof -
    have "(a, b) \<in> fst ` set (edges g)"
      using that e by (auto simp add: set_edge_value_def dom_update has_edge_iff)
    then show ?thesis
      using wf_graph_ends[OF wf, of a b] by (simp add: has_node_def node_attrs_def)
  qed
qed

lemma wf_remove_edge: "wf_graph g \<Longrightarrow> remove_edge g u v = Inr g' \<Longrightarrow> wf_graph g'"
proof (rule wf_graphI)
  assume wf: "wf_graph g" and r: "remove_edge g u v = Inr g'"
  then have g': "g' = g\<lparr>edges := AList.delete (u, v) (edges g)\<rparr>"
    by (auto simp add: remove_edge_def split: if_splits)
  show "distinct (map fst (nodes g'))" using wf_graph_nodes[OF wf] by (simp add: g')
  show "distinct (map fst (edges g'))"
    using wf_graph_edges[OF wf] by (simp add: g' distinct_delete)
  show "has_node g' a \<and> has_node g' b" if "(a, b) \<in> fst ` set (edges g')" for a b
  proof -
    have "(a, b) \<in> fst ` set (edges g)"
      using that dom_delete_subset[of "(u, v)" "edges g"] by (auto simp add: g')
    then show ?thesis
      using wf_graph_ends[OF wf, of a b] by (simp add: g' has_node_def node_attrs_def)
  qed
qed

lemma wf_remove_node: "wf_graph g \<Longrightarrow> remove_node g n = Inr g' \<Longrightarrow> wf_graph g'"
proof (rule wf_graphI)
  assume wf: "wf_graph g" and r: "remove_node g n = Inr g'"
  then have g': "g' = \<lparr>nodes = AList.delete n (nodes g),
                edges = filter (\<lambda>e. fst (fst e) \<noteq> n \<and> snd (fst e) \<noteq> n) (edges g)\<rparr>"
    by (auto simp add: remove_node_def split: if_splits)
  show "distinct (map fst (nodes g'))"
    using wf_graph_nodes[OF wf] by (simp add: g' distinct_delete)
  show "distinct (map fst (edges g'))"
    using wf_graph_edges[OF wf] by (simp add: g' distinct_map_filter)
  show "has_node g' a \<and> has_node g' b" if "(a, b) \<in> fst ` set (edges g')" for a b
  proof -
    have "(a, b) \<in> fst ` set (edges g)" and "a \<noteq> n" and "b \<noteq> n"
      using that by (auto simp add: g')
    then show ?thesis
      using wf_graph_ends[OF wf, of a b]
      by (simp add: g' has_node_def node_attrs_def delete_conv')
  qed
qed

lemma wf_reconnect_source:
  "wf_graph g \<Longrightarrow> reconnect_source_rnd rnd i j new_node u v g = Inr g' \<Longrightarrow> wf_graph g'"
  by (auto simp add: reconnect_source_rnd_def and_then_Inr has_edge_def
      split: if_splits option.splits
      intro: wf_add_edge wf_set_edge_value wf_remove_edge
      elim!: wf_remove_edge[rotated])

lemma wf_reconnect_target:
  "wf_graph g \<Longrightarrow> reconnect_target_rnd rnd i j new_node u v g = Inr g' \<Longrightarrow> wf_graph g'"
  by (auto simp add: reconnect_target_rnd_def and_then_Inr has_edge_def
      split: if_splits option.splits
      intro: wf_add_edge wf_set_edge_value wf_remove_edge
      elim!: wf_remove_edge[rotated])

lemma wf_reconnect:
  "wf_graph g \<Longrightarrow> reconnect_rnd rnd i j new_node e g = Inr g' \<Longrightarrow> wf_graph g'"
  by (auto simp add: reconnect_rnd_def and_then_Inr dest: wf_reconnect_source wf_reconnect_target)

lemma wf_merge_nodes:
  assumes "wf_graph g" and "merge_nodes_rnd rnd g i j = Inr g'"
  shows "wf_graph g'"
proof -
  from assms(2) obtain A g2 g3 where
    l: "for_each (reconnect_rnd rnd i j (Max (set (node_ids g)) + 1))
          (edges_data (add_node g (Max (set (node_ids g)) + 1) A))
          (add_node g (Max (set (node_ids g)) + 1) A) = Inr g2"
    and r: "remove_node g2 i = Inr g3" "remove_node g3 j = Inr g'"
    by (auto simp add: merge_nodes_rnd_def Let_def and_then_Inr split: option.splits if_splits)
  have "wf_graph g2"
    using for_each_preserves[OF l, of wf_graph] wf_add_node[OF assms(1)] wf_reconnect by blast
  then show ?thesis using r wf_remove_node by blast
qed

subsection \<open>The two phases of merge_clusters\<close>

lemma accumulate_result:
  "accumulate_rnd rnd g c acc =
     (if set c \<subseteq> set (node_ids g) then Inr (accumulated_rnd rnd g c acc) else Inl KeyError)"
proof (induction c arbitrary: acc)
  case Nil
  then show ?case by (simp add: accumulated_rnd_def)
next
  case (Cons n c)
  show ?case
  proof (cases "node_attrs g n")
    case None
    then have "n \<notin> set (node_ids g)" by (simp add: has_node_iff[symmetric] has_node_def)
    then show ?thesis using None by simp
  next
    case (Some a)
    then have "n \<in> set (node_ids g)" by (simp add: has_node_iff[symmetric] has_node_def)
    then show ?thesis using Some by (simp add: Cons.IH) (simp add: accumulated_rnd_def)
  qed
qed

lemma accumulated_cong:
  "(\<And>n. n \<in> set c \<Longrightarrow> node_attrs g n = node_attrs h n) \<Longrightarrow>
   accumulated_rnd rnd g c acc = accumulated_rnd rnd h c acc"
  unfolding accumulated_rnd_def by (rule fold_cong) simp_all

lemma cluster_attrs_cong:
  "(\<And>n. n \<in> set c \<Longrightarrow> node_attrs g n = node_attrs h n) \<Longrightarrow>
   cluster_attrs_rnd rnd g c = cluster_attrs_rnd rnd h c"
  unfolding cluster_attrs_rnd_def using accumulated_cong[of c g h rnd initial_acc] by simp

lemma create_cluster_node_Inr:
  assumes "create_cluster_node_rnd rnd m c g = Inr g1" and "\<forall>n\<in>set c. map_of m n = Some i"
  shows "c \<noteq> [] \<and> set c \<subseteq> set (node_ids g) \<and> g1 = add_node g i (cluster_attrs_rnd rnd g c)"
proof -
  from assms(1) obtain first rest where c: "c = first # rest"
    by (cases c) (simp_all add: create_cluster_node_rnd_def)
  then have f: "map_of m first = Some i" using assms(2) by simp
  have sub: "set c \<subseteq> set (node_ids g)"
    using assms(1) unfolding create_cluster_node_rnd_def c list.case f option.case accumulate_result
    by (auto split: if_splits)
  then have "g1 = add_node g i (cluster_attrs_rnd rnd g c)"
    using assms(1) unfolding create_cluster_node_rnd_def c list.case f option.case accumulate_result
    by (simp add: cluster_attrs_rnd_def Let_def c)
  then show ?thesis using sub c by simp
qed

lemma create_nodes_result:
  assumes "for_each (create_cluster_node_rnd rnd m) cl g = Inr g1"
    and "list_all2 (\<lambda>c i. \<forall>n\<in>set c. map_of m n = Some i) cl ids"
    and "distinct ids" and "set ids \<inter> set (node_ids g) = {}"
    and "set ids \<inter> set (concat cl) = {}"
  shows "(\<forall>c\<in>set cl. c \<noteq> [] \<and> set c \<subseteq> set (node_ids g)) \<and>
         nodes g1 = nodes g @ map (\<lambda>p. (snd p, cluster_attrs_rnd rnd g (fst p))) (zip cl ids) \<and>
         edges g1 = edges g"
  using assms
proof (induction cl arbitrary: ids g)
  case Nil
  then show ?case by simp
next
  case (Cons c cl)
  from Cons.prems(2) obtain i ids' where ids: "ids = i # ids'"
    and ci: "\<forall>n\<in>set c. map_of m n = Some i"
    and rest: "list_all2 (\<lambda>c i. \<forall>n\<in>set c. map_of m n = Some i) cl ids'"
    by (auto simp add: list_all2_Cons1)
  from Cons.prems(1) obtain ga where
    ga: "create_cluster_node_rnd rnd m c g = Inr ga" and run: "for_each (create_cluster_node_rnd rnd m) cl ga = Inr g1"
    by (auto simp add: and_then_Inr)
  from create_cluster_node_Inr[OF ga ci] have
    c: "c \<noteq> []" "set c \<subseteq> set (node_ids g)" "ga = add_node g i (cluster_attrs_rnd rnd g c)"
    by simp_all
  have fresh: "i \<notin> set (node_ids g)" using Cons.prems(4) ids by auto
  have ga_eq: "ga = g\<lparr>nodes := nodes g @ [(i, cluster_attrs_rnd rnd g c)]\<rparr>"
    using c(3) add_node_fresh[OF fresh] by simp
  have ids_ga: "node_ids ga = node_ids g @ [i]"
    by (simp add: ga_eq node_ids_def)
  have d': "distinct ids'" and i_notin: "i \<notin> set ids'" using Cons.prems(3) ids by simp_all
  have f1: "set ids' \<inter> set (node_ids ga) = {}"
    using Cons.prems(4) ids i_notin by (auto simp add: ids_ga)
  have f2: "set ids' \<inter> set (concat cl) = {}"
    using Cons.prems(5) ids by auto
  from Cons.IH[OF run rest d' f1 f2] have
    ih: "\<forall>c'\<in>set cl. c' \<noteq> [] \<and> set c' \<subseteq> set (node_ids ga)"
      "nodes g1 = nodes ga @ map (\<lambda>p. (snd p, cluster_attrs_rnd rnd ga (fst p))) (zip cl ids')"
      "edges g1 = edges ga"
    by simp_all
  have i_out: "i \<notin> set (concat (c # cl))" using Cons.prems(5) ids by auto
  have sub: "set c' \<subseteq> set (node_ids g)" if "c' \<in> set cl" for c'
    using ih(1) that i_out by (auto simp add: ids_ga)
  have same: "cluster_attrs_rnd rnd ga c' = cluster_attrs_rnd rnd g c'" if "c' \<in> set cl" for c'
  proof (rule cluster_attrs_cong)
    fix n assume "n \<in> set c'"
    then have "n \<noteq> i" using i_out that by auto
    then show "node_attrs ga n = node_attrs g n"
      by (simp add: ga_eq node_attrs_def map_add_def split: option.splits)
  qed
  have "map (\<lambda>p. (snd p, cluster_attrs_rnd rnd ga (fst p))) (zip cl ids') =
        map (\<lambda>p. (snd p, cluster_attrs_rnd rnd g (fst p))) (zip cl ids')"
    by (rule map_cong) (auto dest: set_zip_leftD simp add: same)
  then have "nodes g1 = nodes g @ map (\<lambda>p. (snd p, cluster_attrs_rnd rnd g (fst p))) (zip (c # cl) ids)"
    by (simp add: ih(2) ga_eq ids)
  moreover have "edges g1 = edges g" by (simp add: ih(3) ga_eq)
  ultimately show ?case using c(1,2) ih(1) sub by auto
qed

lemma mapped_cases: "mapped m s = s \<or> (s, mapped m s) \<in> set m"
  by (auto simp add: mapped_def split: option.splits dest: map_of_SomeD)

lemma successors_nodes: "wf_graph g \<Longrightarrow> s \<in> set (successors g u) \<Longrightarrow> has_node g s"
  by (auto simp add: successors_def wf_graph_def has_node_iff)

lemma predecessors_has_node: "wf_graph g \<Longrightarrow> s \<in> set (predecessors g u) \<Longrightarrow> has_node g s"
  by (auto simp add: predecessors_def wf_graph_def has_node_iff)

lemma rehome_successor_keeps:
  assumes "wf_graph g" and "has_node g new" and "has_node g (mapped m s)"
    and "rehome_successor m old new s g = Inr g1"
  shows "nodes g1 = nodes g \<and> wf_graph g1"
proof -
  from assms(4) have "g1 = g \<or> (\<exists>val. g1 = add_edge g new (mapped m s) val)"
    by (auto simp add: rehome_successor_def Let_def split: if_splits option.splits)
  then show ?thesis using assms(1-3) wf_add_edge by auto
qed

lemma rehome_predecessor_keeps:
  assumes "wf_graph g" and "has_node g new" and "has_node g (mapped m s)"
    and "rehome_predecessor m old new s g = Inr g1"
  shows "nodes g1 = nodes g \<and> wf_graph g1"
proof -
  from assms(4) have "g1 = g \<or> (\<exists>val. g1 = add_edge g (mapped m s) new val)"
    by (auto simp add: rehome_predecessor_def Let_def split: if_splits option.splits)
  then show ?thesis using assms(1-3) wf_add_edge by auto
qed

lemma reassign_edges_result:
  assumes wf: "wf_graph g" and new: "\<forall>p\<in>set m. has_node g (snd p)"
    and item: "item \<in> set m" and run: "reassign_edges m item g = Inr h"
  shows "nodes h = filter (\<lambda>p. fst p \<noteq> fst item) (nodes g) \<and> wf_graph h"
proof -
  from run obtain g1 g2 where
    s: "for_each (rehome_successor m (fst item) (snd item)) (successors g (fst item)) g = Inr g1"
    and p: "for_each (rehome_predecessor m (fst item) (snd item))
              (predecessors g1 (fst item)) g1 = Inr g2"
    and r: "remove_node g2 (fst item) = Inr h"
    by (auto simp add: reassign_edges_def Let_def and_then_Inr split: if_splits)
  have target: "has_node g (mapped m x)" if "has_node g x" for x
    using mapped_cases[of m x] that new by force
  have inew: "has_node g (snd item)" using new item by simp
  have step1: "nodes h2 = nodes g \<and> wf_graph h2"
    if "x \<in> set (successors g (fst item))" "nodes h1 = nodes g \<and> wf_graph h1"
      "rehome_successor m (fst item) (snd item) x h1 = Inr h2" for x h1 h2
  proof -
    have "has_node h1 (snd item)" "has_node h1 (mapped m x)"
      using that(1,2) inew target successors_nodes[OF wf]
      by (simp_all add: has_node_nodes_eq[of h1 g])
    then show ?thesis using rehome_successor_keeps[OF _ _ _ that(3)] that(2) by simp
  qed
  have g1: "nodes g1 = nodes g \<and> wf_graph g1"
    using for_each_preserves[OF s, of "\<lambda>h. nodes h = nodes g \<and> wf_graph h"] wf step1
    by blast
  have step2: "nodes h2 = nodes g \<and> wf_graph h2"
    if "x \<in> set (predecessors g1 (fst item))" "nodes h1 = nodes g \<and> wf_graph h1"
      "rehome_predecessor m (fst item) (snd item) x h1 = Inr h2" for x h1 h2
  proof -
    have "has_node g1 x" using predecessors_has_node that(1) g1 by blast
    then have "has_node g x" using g1 by (simp add: has_node_nodes_eq[of g1 g])
    then have "has_node h1 (snd item)" "has_node h1 (mapped m x)"
      using that(2) inew target by (simp_all add: has_node_nodes_eq[of h1 g])
    then show ?thesis using rehome_predecessor_keeps[OF _ _ _ that(3)] that(2) by simp
  qed
  have g2: "nodes g2 = nodes g \<and> wf_graph g2"
    using for_each_preserves[OF p, of "\<lambda>h. nodes h = nodes g \<and> wf_graph h"] g1 step2
    by blast
  show ?thesis
    using remove_node_Inr[OF r] wf_remove_node[OF _ r] g2 by simp
qed

lemma reassign_all_result:
  assumes "for_each (reassign_edges m) items g = Inr g'" and "wf_graph g"
    and "\<forall>p\<in>set m. has_node g (snd p)" and "snd ` set m \<inter> fst ` set m = {}"
    and "set items \<subseteq> set m"
  shows "nodes g' = filter (\<lambda>p. fst p \<notin> fst ` set items) (nodes g) \<and> wf_graph g'"
  using assms
proof (induction items arbitrary: g)
  case Nil
  then show ?case by simp
next
  case (Cons item items)
  from Cons.prems(1) obtain h where
    h: "reassign_edges m item g = Inr h" and run: "for_each (reassign_edges m) items h = Inr g'"
    by (auto simp add: and_then_Inr)
  have item: "item \<in> set m" using Cons.prems(5) by simp
  from reassign_edges_result[OF Cons.prems(2,3) item h] have
    nh: "nodes h = filter (\<lambda>p. fst p \<noteq> fst item) (nodes g)" and wh: "wf_graph h"
    by simp_all
  have "snd p \<noteq> fst item" if "p \<in> set m" for p
    using Cons.prems(4) item that by (metis IntI empty_iff imageI)
  moreover have "has_node h n \<longleftrightarrow> has_node g n \<and> n \<noteq> fst item" for n
    by (auto simp add: has_node_iff node_ids_def nh)
  ultimately have newh: "\<forall>p\<in>set m. has_node h (snd p)"
    using Cons.prems(3) by simp
  have sub: "set items \<subseteq> set m" using Cons.prems(5) by simp
  from Cons.IH[OF run wh newh Cons.prems(4) sub] have
    "nodes g' = filter (\<lambda>p. fst p \<notin> fst ` set items) (nodes h)" "wf_graph g'"
    by simp_all
  then show ?case by (auto simp add: nh intro: filter_cong)
qed

lemma list_all2_left_witness:
  "list_all2 P xs ys \<Longrightarrow> x \<in> set xs \<Longrightarrow> \<exists>y\<in>set ys. P x y"
  by (induction rule: list_all2_induct) auto

lemma merge_phases_result:
  assumes wf: "wf_graph g"
    and run1: "for_each (create_cluster_node_rnd rnd m) cl g = Inr g1"
    and run2: "for_each (reassign_edges m) m g1 = Inr g'"
    and part: "partition_of m cl ids"
    and fresh: "\<forall>i\<in>set ids. \<not> has_node g i \<and> i \<notin> fst ` set m"
  shows "fst ` set m \<subseteq> set (node_ids g) \<and> (\<forall>c\<in>set cl. c \<noteq> []) \<and>
         nodes g' = filter (\<lambda>p. fst p \<notin> fst ` set m) (nodes g) @
                    map (\<lambda>p. (snd p, cluster_attrs_rnd rnd g (fst p))) (zip cl ids) \<and>
         wf_graph g'"
proof -
  have dk: "distinct (map fst m)" and ms: "mset (concat cl) = mset (map fst m)"
    and di: "distinct ids"
    and la: "list_all2 (\<lambda>c i. \<forall>n\<in>set c. map_of m n = Some i) cl ids"
    using part unfolding partition_of_def by blast+
  have keys: "set (concat cl) = fst ` set m"
    using ms by (metis set_mset_mset set_map)
  have len: "length cl = length ids" using la by (rule list_all2_lengthD)
  have f1: "set ids \<inter> set (node_ids g) = {}"
    using fresh by (auto simp add: has_node_iff)
  have f2: "set ids \<inter> set (concat cl) = {}"
    using fresh keys by auto
  from create_nodes_result[OF run1 la di f1 f2] have
    ne: "\<forall>c\<in>set cl. c \<noteq> [] \<and> set c \<subseteq> set (node_ids g)"
    and n1: "nodes g1 = nodes g @ map (\<lambda>p. (snd p, cluster_attrs_rnd rnd g (fst p))) (zip cl ids)"
    and e1: "edges g1 = edges g"
    by simp_all
  have old: "fst ` set m \<subseteq> set (node_ids g)"
    using ne keys by auto
  have ids1: "node_ids g1 = node_ids g @ ids"
    using len by (simp add: node_ids_def n1 comp_def)
  have wf1: "wf_graph g1"
    unfolding wf_graph_def
    using wf f1 di by (auto simp add: e1 ids1 ids1[unfolded node_ids_def] wf_graph_def node_ids_def)
  have range: "snd p \<in> set ids" if "p \<in> set m" for p
  proof -
    have "fst p \<in> set (concat cl)" using keys that by auto
    then obtain c where c: "c \<in> set cl" "fst p \<in> set c" by auto
    from list_all2_left_witness[OF la c(1)] obtain i where
      i: "i \<in> set ids" "\<forall>n\<in>set c. map_of m n = Some i" by blast
    have "map_of m (fst p) = Some (snd p)" using dk that by simp
    then show ?thesis using i c(2) by simp
  qed
  have new1: "\<forall>p\<in>set m. has_node g1 (snd p)"
    using range by (simp add: has_node_iff ids1)
  have disj: "snd ` set m \<inter> fst ` set m = {}"
    using range fresh by auto
  from reassign_all_result[OF run2 wf1 new1 disj] have
    n': "nodes g' = filter (\<lambda>p. fst p \<notin> fst ` set m) (nodes g1)" and wf': "wf_graph g'"
    by simp_all
  have "filter (\<lambda>p. fst p \<notin> fst ` set m)
          (map (\<lambda>p. (snd p, cluster_attrs_rnd rnd g (fst p))) (zip cl ids)) =
        map (\<lambda>p. (snd p, cluster_attrs_rnd rnd g (fst p))) (zip cl ids)"
  proof -
    have "fst (snd q, cluster_attrs_rnd rnd g (fst q)) \<notin> fst ` set m" if "q \<in> set (zip cl ids)" for q
      using fresh set_zip_rightD[of "fst q" "snd q" cl ids] that by simp
    then show ?thesis by (simp add: filter_id_conv)
  qed
  then have "nodes g' = filter (\<lambda>p. fst p \<notin> fst ` set m) (nodes g) @
                    map (\<lambda>p. (snd p, cluster_attrs_rnd rnd g (fst p))) (zip cl ids)"
    by (simp add: n' n1)
  then show ?thesis using old ne wf' by simp
qed

subsection \<open>What the two branches guarantee\<close>

lemma list_mapping_keys [simp]: "map fst (list_mapping s cs) = concat cs"
  by (induction cs arbitrary: s) (simp_all add: comp_def)

lemma list_mapping_range: "p \<in> set (list_mapping s cs) \<Longrightarrow> s \<le> snd p"
  by (induction cs arbitrary: s) fastforce+

lemma map_of_constant: "n \<in> set c \<Longrightarrow> map_of (map (\<lambda>n. (n, s)) c) n = Some s"
  by (induction c) auto

lemma map_of_constant_None: "n \<notin> set c \<Longrightarrow> map_of (map (\<lambda>n. (n, s)) c) n = None"
  by (induction c) auto

lemma list_mapping_clusters:
  "distinct (concat cs) \<Longrightarrow>
   list_all2 (\<lambda>c i. \<forall>n\<in>set c. map_of (list_mapping s cs) n = Some i) cs
     (map (\<lambda>k. s + int k) [0..<length cs])"
proof (induction cs arbitrary: s)
  case Nil
  then show ?case by simp
next
  case (Cons c cs)
  have d: "distinct (concat cs)" and disj: "set c \<inter> set (concat cs) = {}"
    using Cons.prems by auto
  have ih: "list_all2 (\<lambda>c i. \<forall>n\<in>set c. map_of (list_mapping (s + 1) cs) n = Some i) cs
     (map (\<lambda>k. s + 1 + int k) [0..<length cs])"
    using Cons.IH[OF d] .
  have later: "map_of (list_mapping s (c # cs)) n = map_of (list_mapping (s + 1) cs) n"
    if "n \<in> set (concat cs)" for n
  proof -
    have "n \<notin> set c" using that disj by auto
    then show ?thesis by (simp add: map_add_def map_of_constant_None)
  qed
  have "list_all2 (\<lambda>c' i. \<forall>n\<in>set c'. map_of (list_mapping s (c # cs)) n = Some i) cs
     (map (\<lambda>k. s + 1 + int k) [0..<length cs])"
    using ih
  proof (rule list.rel_mono_strong)
    fix c' i
    assume "c' \<in> set cs" and "\<forall>n\<in>set c'. map_of (list_mapping (s + 1) cs) n = Some i"
    then show "\<forall>n\<in>set c'. map_of (list_mapping s (c # cs)) n = Some i"
      using later by (metis UN_I set_concat)
  qed
  moreover have "\<forall>n\<in>set c. map_of (list_mapping s (c # cs)) n = Some s"
    by (simp add: map_add_def map_of_constant)
  moreover have "map (\<lambda>k. s + int k) [0..<length (c # cs)] =
      s # map (\<lambda>k. s + 1 + int k) [0..<length cs]"
    by (simp add: map_upt_Suc add.assoc del: upt_Suc)
  ultimately show ?case by simp
qed

lemma partition_of_list:
  "distinct (concat cs) \<Longrightarrow>
   partition_of (list_mapping s cs) cs (map (\<lambda>k. s + int k) [0..<length cs])"
proof -
  assume d: "distinct (concat cs)"
  have "distinct (map (\<lambda>k. s + int k) [0..<length cs])"
    by (simp add: distinct_map inj_on_def)
  then show ?thesis
    unfolding partition_of_def using d list_mapping_clusters[OF d, of s]
    by (simp only: list_mapping_keys)
qed

lemma fold_update_distinct:
  "distinct (map fst m) \<Longrightarrow> distinct (map fst (fold (\<lambda>k. AList.update k v) ks m))"
  by (induction ks arbitrary: m) (simp_all add: distinct_update)

lemma dict_id_mapping_distinct:
  "dict_id_mapping d m0 = Inr m \<Longrightarrow> distinct (map fst m0) \<Longrightarrow> distinct (map fst m)"
proof (induction d m0 rule: dict_id_mapping.induct)
  case (1 m)
  then show ?case by simp
next
  case (2 new_id old_ids rest m)
  then show ?case by (simp add: fold_update_distinct)
next
  case (3 new_id n rest m)
  then show ?case by simp
qed

lemma mset_filter_split:
  "(\<And>x. \<not> (P x \<and> Q x)) \<Longrightarrow>
   mset (filter P xs) + mset (filter Q xs) = mset (filter (\<lambda>x. P x \<or> Q x) xs)"
  by (induction xs) auto

lemma mset_concat_classes:
  "distinct vs \<Longrightarrow>
   mset (concat (map (\<lambda>v. filter (\<lambda>p. f p = v) xs) vs)) = mset (filter (\<lambda>p. f p \<in> set vs) xs)"
proof (induction vs)
  case Nil
  then show ?case by simp
next
  case (Cons v vs)
  have "mset (filter (\<lambda>p. f p = v) xs) + mset (filter (\<lambda>p. f p \<in> set vs) xs) =
      mset (filter (\<lambda>p. f p = v \<or> f p \<in> set vs) xs)"
    using Cons.prems by (intro mset_filter_split) auto
  then show ?case using Cons by simp
qed

lemma partition_of_dict:
  assumes "distinct (map fst m)"
  shows "partition_of m (dict_clusters_list m) (remdups (map snd m))"
proof -
  let ?vs = "remdups (map snd m)"
  have "concat (map (\<lambda>v. map fst (filter (\<lambda>p. snd p = v) m)) ?vs) =
      map fst (concat (map (\<lambda>v. filter (\<lambda>p. snd p = v) m) ?vs))"
    by (simp add: map_concat comp_def)
  moreover have "mset (concat (map (\<lambda>v. filter (\<lambda>p. snd p = v) m) ?vs)) = mset m"
    by (simp add: mset_concat_classes)
  ultimately have a: "mset (concat (dict_clusters_list m)) = mset (map fst m)"
    by (simp add: dict_clusters_list_def)
  have "map_of m n = Some v" if "n \<in> set (map fst (filter (\<lambda>p. snd p = v) m))" for n v
  proof -
    from that have "(n, v) \<in> set m" by auto
    then show ?thesis using assms by simp
  qed
  then have b: "list_all2 (\<lambda>c i. \<forall>n\<in>set c. map_of m n = Some i) (dict_clusters_list m) ?vs"
    unfolding dict_clusters_list_def list_all2_map1 by (intro list_all2_same[THEN iffD2]) blast
  show ?thesis
    unfolding partition_of_def using assms a b by simp
qed

lemma fresh_new_ids_list: "fresh_new_ids g (ClusterList cs)"
proof (cases "nodes g \<noteq> [] \<and> valid_clusters g cs")
  case False
  then show ?thesis by (auto simp add: fresh_new_ids_def cluster_mapping_list)
next
  case True
  let ?s = "Max (set (node_ids g)) + 1"
  have keys: "fst ` set (list_mapping ?s cs) \<subseteq> set (node_ids g)"
    using True list_mapping_keys[of ?s cs]
    by (metis (no_types, lifting) has_node_iff list_all_iff set_map subsetI valid_clusters_def)
  have "\<not> has_node g (snd p) \<and> snd p \<notin> fst ` set (list_mapping ?s cs)"
    if "p \<in> set (list_mapping ?s cs)" for p
  proof -
    have "?s \<le> snd p" using that by (rule list_mapping_range)
    then have "snd p \<notin> set (node_ids g)" using max_id_fresh[of "snd p" g] by fastforce
    then show ?thesis using keys by (auto simp add: has_node_iff)
  qed
  then show ?thesis
    using True by (simp add: fresh_new_ids_def cluster_mapping_list list_all_iff)
qed

lemma dict_mapping_range:
  assumes "cluster_mapping g (ClusterDict d) = Inr (m, cl)"
  shows "distinct (map fst m) \<and> cl = dict_clusters_list m"
  using assms dict_id_mapping_distinct[of d "[]"]
  by (auto simp add: cluster_mapping_def split: sum.splits)

lemma merge_clusters_result:
  assumes wf: "wf_graph g" and run: "merge_clusters_rnd rnd g c = Inr g'"
    and fresh: "fresh_new_ids g c"
  shows "\<exists>m cl ids. partition_of m cl ids \<and> fst ` set m \<subseteq> set (node_ids g) \<and>
           (\<forall>c\<in>set cl. c \<noteq> []) \<and>
           nodes g' = filter (\<lambda>p. fst p \<notin> fst ` set m) (nodes g) @
                      map (\<lambda>p. (snd p, cluster_attrs_rnd rnd g (fst p))) (zip cl ids) \<and>
           wf_graph g'"
proof -
  from run obtain m cl g1 where
    cm: "cluster_mapping g c = Inr (m, cl)"
    and run1: "for_each (create_cluster_node_rnd rnd m) cl g = Inr g1"
    and run2: "for_each (reassign_edges m) m g1 = Inr g'"
    by (auto simp add: merge_clusters_rnd_def and_then_Inr split: sum.splits prod.splits)
  have fr: "\<forall>p\<in>set m. \<not> has_node g (snd p) \<and> snd p \<notin> fst ` set m"
    using fresh cm by (simp add: fresh_new_ids_def list_all_iff)
  have "\<exists>ids. partition_of m cl ids \<and> (\<forall>i\<in>set ids. \<not> has_node g i \<and> i \<notin> fst ` set m)"
  proof (cases c)
    case (ClusterList cs)
    let ?s = "Max (set (node_ids g)) + 1"
    from cm ClusterList have v: "valid_clusters g cs" and m: "m = list_mapping ?s cs"
      and cl: "cl = cs"
      by (auto simp add: cluster_mapping_list split: if_splits)
    have keys: "fst ` set m \<subseteq> set (node_ids g)"
      using v list_mapping_keys[of ?s cs] unfolding m valid_clusters_def list_all_iff has_node_iff
      by (metis (no_types, lifting) set_map subsetI)
    have p: "partition_of m cl (map (\<lambda>k. ?s + int k) [0..<length cs])"
      unfolding m cl using v by (intro partition_of_list) (simp add: valid_clusters_def)
    have "\<not> has_node g i \<and> i \<notin> fst ` set m"
      if "i \<in> set (map (\<lambda>k. ?s + int k) [0..<length cs])" for i
    proof -
      from that have "?s \<le> i" by auto
      then have "i \<notin> set (node_ids g)" using max_id_fresh[of i g] by fastforce
      then show ?thesis using keys by (auto simp add: has_node_iff)
    qed
    then show ?thesis using p by blast
  next
    case (ClusterDict d)
    from dict_mapping_range[OF cm[unfolded ClusterDict]] have
      "partition_of m cl (remdups (map snd m))"
      using partition_of_dict by simp
    moreover have "\<forall>i\<in>set (remdups (map snd m)). \<not> has_node g i \<and> i \<notin> fst ` set m"
      using fr by auto
    ultimately show ?thesis by blast
  next
    case OtherArg
    then show ?thesis using cm by (simp add: cluster_mapping_def)
  qed
  then obtain ids where ids: "partition_of m cl ids"
    "\<forall>i\<in>set ids. \<not> has_node g i \<and> i \<notin> fst ` set m" by blast
  from merge_phases_result[OF wf run1 run2 ids] ids(1) show ?thesis by blast
qed

subsection \<open>A valid list of clusters is merged\<close>

lemma for_each_succeeds:
  assumes "P g"
    and "\<And>x h. x \<in> set xs \<Longrightarrow> P h \<Longrightarrow> \<exists>h'. body x h = Inr h' \<and> P h'"
  shows "\<exists>g'. for_each body xs g = Inr g' \<and> P g'"
  using assms
proof (induction xs arbitrary: g)
  case Nil
  then show ?case by simp
next
  case (Cons x xs)
  from Cons.prems(2)[of x g] Cons.prems(1) obtain h where h: "body x g = Inr h" "P h"
    by auto
  have "\<exists>g'. for_each body xs h = Inr g' \<and> P g'"
    using h(2) Cons.prems(2) by (intro Cons.IH) auto
  then show ?case by (simp add: h(1) and_then_def)
qed

lemma successors_has_edge: "s \<in> set (successors g u) \<Longrightarrow> has_edge g u s"
  by (force simp add: successors_def has_edge_iff)

lemma rehome_successor_succeeds:
  assumes "has_edge g old s" and "new \<noteq> old"
  shows "\<exists>h. rehome_successor m old new s g = Inr h \<and>
           (h = g \<or> (\<exists>val. h = add_edge g new (mapped m s) val))"
  using assms by (auto simp add: rehome_successor_def Let_def has_edge_def)

lemma rehome_predecessor_succeeds:
  assumes "has_edge g s old" and "new \<noteq> old"
  shows "\<exists>h. rehome_predecessor m old new s g = Inr h \<and>
           (h = g \<or> (\<exists>val. h = add_edge g (mapped m s) new val))"
  using assms by (auto simp add: rehome_predecessor_def Let_def has_edge_def)

lemma reassign_edges_succeeds:
  assumes wf: "wf_graph g" and new: "\<forall>p\<in>set m. has_node g (snd p)"
    and item: "item \<in> set m" and old: "has_node g (fst item)" and ne: "snd item \<noteq> fst item"
  shows "\<exists>h. reassign_edges m item g = Inr h"
proof -
  let ?old = "fst item" and ?new = "snd item"
  have target: "has_node g (mapped m x)" if "has_node g x" for x
    using mapped_cases[of m x] that new by force
  have inew: "has_node g ?new" using new item by simp
  let ?P = "\<lambda>h. nodes h = nodes g \<and> wf_graph h \<and> (\<forall>s. edge_value h ?old s = edge_value g ?old s)"
  have s1: "\<exists>h'. rehome_successor m ?old ?new x h = Inr h' \<and> ?P h'"
    if "x \<in> set (successors g ?old)" "?P h" for x h
  proof -
    have "has_edge h ?old x"
      using successors_has_edge[OF that(1)] that(2) by (simp add: has_edge_def)
    from rehome_successor_succeeds[OF this ne, of m] obtain h' where
      h': "rehome_successor m ?old ?new x h = Inr h'"
        "h' = h \<or> (\<exists>val. h' = add_edge h ?new (mapped m x) val)"
      by blast
    have n: "has_node h ?new" "has_node h (mapped m x)"
      using that inew target successors_nodes[OF wf]
      by (simp_all add: has_node_nodes_eq[of h g])
    have wfh: "wf_graph h" and nh: "nodes h = nodes g" using that(2) by simp_all
    from rehome_successor_keeps[OF wfh n h'(1)] have k: "nodes h' = nodes h" "wf_graph h'"
      by simp_all
    have "edge_value h' ?old s = edge_value h ?old s" for s
      using h'(2) ne by (auto simp add: edge_value_add_edge)
    then have "?P h'" using k nh that(2) by simp
    then show ?thesis using h'(1) by blast
  qed
  have p0: "?P g" using wf by simp
  have "\<exists>g1. for_each (rehome_successor m ?old ?new) (successors g ?old) g = Inr g1 \<and> ?P g1"
    using p0 s1 by (rule for_each_succeeds)
  then obtain g1 where
    g1: "for_each (rehome_successor m ?old ?new) (successors g ?old) g = Inr g1"
      "nodes g1 = nodes g" "wf_graph g1"
    by blast
  let ?Q = "\<lambda>h. nodes h = nodes g \<and> wf_graph h \<and> (\<forall>s. edge_value h s ?old = edge_value g1 s ?old)"
  have s2: "\<exists>h'. rehome_predecessor m ?old ?new x h = Inr h' \<and> ?Q h'"
    if "x \<in> set (predecessors g1 ?old)" "?Q h" for x h
  proof -
    have "has_edge h x ?old"
      using predecessors_has_edge[OF that(1)] that(2) by (simp add: has_edge_def)
    from rehome_predecessor_succeeds[OF this ne, of m] obtain h' where
      h': "rehome_predecessor m ?old ?new x h = Inr h'"
        "h' = h \<or> (\<exists>val. h' = add_edge h (mapped m x) ?new val)"
      by blast
    have "has_node g1 x" using predecessors_has_node[OF g1(3) that(1)] .
    then have "has_node g x" using g1(2) by (simp add: has_node_nodes_eq[of g1 g])
    then have n: "has_node h ?new" "has_node h (mapped m x)"
      using that(2) inew target by (simp_all add: has_node_nodes_eq[of h g])
    have wfh: "wf_graph h" and nh: "nodes h = nodes g" using that(2) by simp_all
    from rehome_predecessor_keeps[OF wfh n h'(1)] have k: "nodes h' = nodes h" "wf_graph h'"
      by simp_all
    have "edge_value h' s ?old = edge_value h s ?old" for s
      using h'(2) ne by (auto simp add: edge_value_add_edge)
    then have "?Q h'" using k nh that(2) by simp
    then show ?thesis using h'(1) by blast
  qed
  have q0: "?Q g1" using g1(2,3) by simp
  have "\<exists>g2. for_each (rehome_predecessor m ?old ?new) (predecessors g1 ?old) g1 = Inr g2 \<and>
          ?Q g2"
    using q0 s2 by (rule for_each_succeeds)
  then obtain g2 where
    g2: "for_each (rehome_predecessor m ?old ?new) (predecessors g1 ?old) g1 = Inr g2"
      "nodes g2 = nodes g"
    by blast
  have "has_node g1 ?old" "has_node g2 ?old"
    using old has_node_nodes_eq[OF g1(2)] has_node_nodes_eq[OF g2(2)] by simp_all
  then obtain h where "remove_node g2 ?old = Inr h"
    using remove_node_present by blast
  then show ?thesis
    using old \<open>has_node g1 ?old\<close> g1(1) g2(1)
    by (simp add: reassign_edges_def Let_def and_then_def at_graph_def)
qed

lemma reassign_all_succeeds:
  assumes "wf_graph g" and "\<forall>p\<in>set m. has_node g (snd p)"
    and "snd ` set m \<inter> fst ` set m = {}" and "set items \<subseteq> set m"
    and "distinct (map fst items)" and "\<forall>p\<in>set items. has_node g (fst p)"
  shows "\<exists>g'. for_each (reassign_edges m) items g = Inr g'"
  using assms
proof (induction items arbitrary: g)
  case Nil
  then show ?case by simp
next
  case (Cons item items)
  have item: "item \<in> set m" using Cons.prems(4) by simp
  have ne: "snd item \<noteq> fst item"
    using Cons.prems(3) item by (metis IntI empty_iff imageI)
  from reassign_edges_succeeds[OF Cons.prems(1,2) item _ ne] Cons.prems(6) obtain h where
    h: "reassign_edges m item g = Inr h" by auto
  from reassign_edges_result[OF Cons.prems(1,2) item h] have
    nh: "nodes h = filter (\<lambda>p. fst p \<noteq> fst item) (nodes g)" and wh: "wf_graph h"
    by simp_all
  have hn: "has_node h n \<longleftrightarrow> has_node g n \<and> n \<noteq> fst item" for n
    by (auto simp add: has_node_iff node_ids_def nh)
  have "snd p \<noteq> fst item" if "p \<in> set m" for p
    using Cons.prems(3) item that by (metis IntI empty_iff imageI)
  then have newh: "\<forall>p\<in>set m. has_node h (snd p)"
    using Cons.prems(2) by (simp add: hn)
  have oldh: "\<forall>p\<in>set items. has_node h (fst p)"
  proof
    fix p assume p: "p \<in> set items"
    have "fst item \<notin> fst ` set items" using Cons.prems(5) by simp
    then have "fst p \<noteq> fst item" using p by (metis imageI)
    then show "has_node h (fst p)" using Cons.prems(6) p by (simp add: hn)
  qed
  have "\<exists>g'. for_each (reassign_edges m) items h = Inr g'"
    using Cons.prems(3,4,5) by (intro Cons.IH[OF wh newh _ _ _ oldh]) simp_all
  then show ?case by (simp add: h and_then_def)
qed

lemma create_nodes_succeed:
  assumes "list_all2 (\<lambda>c i. \<forall>n\<in>set c. map_of m n = Some i) cl ids"
    and "\<forall>c\<in>set cl. c \<noteq> [] \<and> set c \<subseteq> set (node_ids g)"
  shows "\<exists>g1. for_each (create_cluster_node_rnd rnd m) cl g = Inr g1"
  using assms
proof (induction cl arbitrary: ids g)
  case Nil
  then show ?case by simp
next
  case (Cons c cl)
  from Cons.prems(1) obtain i ids' where ids: "ids = i # ids'"
    and ci: "\<forall>n\<in>set c. map_of m n = Some i"
    and rest: "list_all2 (\<lambda>c i. \<forall>n\<in>set c. map_of m n = Some i) cl ids'"
    by (auto simp add: list_all2_Cons1)
  obtain first tl where c: "c = first # tl" using Cons.prems(2) by (cases c) auto
  have sub: "set c \<subseteq> set (node_ids g)" using Cons.prems(2) by simp
  obtain ga where ga: "create_cluster_node_rnd rnd m c g = Inr ga"
    "ga = add_node g i (cluster_attrs_rnd rnd g c)"
    using ci sub unfolding create_cluster_node_rnd_def c list.case accumulate_result
    by (simp add: cluster_attrs_rnd_def Let_def)
  have "set (node_ids g) \<subseteq> set (node_ids ga)"
    by (auto simp add: ga(2) node_ids_add_node)
  then have "\<forall>c\<in>set cl. c \<noteq> [] \<and> set c \<subseteq> set (node_ids ga)"
    using Cons.prems(2) by auto
  from Cons.IH[OF rest this] show ?case by (simp add: ga(1) and_then_def)
qed

lemma reassign_after_create:
  assumes wf: "wf_graph g"
    and run1: "for_each (create_cluster_node_rnd rnd m) cl g = Inr g1"
    and part: "partition_of m cl ids"
    and fresh: "\<forall>i\<in>set ids. \<not> has_node g i \<and> i \<notin> fst ` set m"
    and old: "\<forall>p\<in>set m. has_node g (fst p)"
  shows "\<exists>g'. for_each (reassign_edges m) m g1 = Inr g'"
proof -
  have dk: "distinct (map fst m)" and ms: "mset (concat cl) = mset (map fst m)"
    and di: "distinct ids"
    and la: "list_all2 (\<lambda>c i. \<forall>n\<in>set c. map_of m n = Some i) cl ids"
    using part unfolding partition_of_def by blast+
  have keys: "set (concat cl) = fst ` set m"
    using ms by (metis set_mset_mset set_map)
  have len: "length cl = length ids" using la by (rule list_all2_lengthD)
  have f1: "set ids \<inter> set (node_ids g) = {}"
    using fresh by (auto simp add: has_node_iff)
  have f2: "set ids \<inter> set (concat cl) = {}"
    using fresh keys by auto
  from create_nodes_result[OF run1 la di f1 f2] have
    n1: "nodes g1 = nodes g @ map (\<lambda>p. (snd p, cluster_attrs_rnd rnd g (fst p))) (zip cl ids)"
    and e1: "edges g1 = edges g"
    by simp_all
  have ids1: "node_ids g1 = node_ids g @ ids"
    using len by (simp add: node_ids_def n1 comp_def)
  have wf1: "wf_graph g1"
    unfolding wf_graph_def
    using wf f1 di by (auto simp add: e1 ids1 ids1[unfolded node_ids_def] wf_graph_def node_ids_def)
  have range: "snd p \<in> set ids" if "p \<in> set m" for p
  proof -
    have "fst p \<in> set (concat cl)" using keys that by auto
    then obtain c where c: "c \<in> set cl" "fst p \<in> set c" by auto
    from list_all2_left_witness[OF la c(1)] obtain i where
      i: "i \<in> set ids" "\<forall>n\<in>set c. map_of m n = Some i" by blast
    have "map_of m (fst p) = Some (snd p)" using dk that by simp
    then show ?thesis using i c(2) by simp
  qed
  have new1: "\<forall>p\<in>set m. has_node g1 (snd p)"
    using range by (simp add: has_node_iff ids1)
  have old1: "\<forall>p\<in>set m. has_node g1 (fst p)"
    using old by (simp add: has_node_iff ids1)
  have disj: "snd ` set m \<inter> fst ` set m = {}"
    using range fresh by auto
  from reassign_all_succeeds[OF wf1 new1 disj _ dk old1] show ?thesis by auto
qed

text \<open>
  The list form completes on every valid input: when the graph is well formed and has a
  node, every cluster is non-empty, every id named is a node and no id is named twice,
  \<^verbatim>\<open>merge_clusters\<close> returns a graph.
\<close>

lemma merge_clusters_list_completes:
  assumes wf: "wf_graph g" and v: "valid_clusters g cs" and ne: "\<forall>c\<in>set cs. c \<noteq> []"
    and nodes: "nodes g \<noteq> []"
  shows "\<exists>g'. merge_clusters_rnd rnd g (ClusterList cs) = Inr g'"
proof -
  define s where "s = Max (set (node_ids g)) + 1"
  define m where "m = list_mapping s cs"
  define ids where "ids = map (\<lambda>k. s + int k) [0..<length cs]"
  have cm: "cluster_mapping g (ClusterList cs) = Inr (m, cs)"
    using v nodes by (simp add: cluster_mapping_list m_def s_def)
  have d: "distinct (concat cs)" and inn: "set (concat cs) \<subseteq> set (node_ids g)"
    using v by (auto simp add: valid_clusters_def list_all_iff has_node_iff)
  have part: "partition_of m cs ids"
    unfolding m_def ids_def using d by (rule partition_of_list)
  then have la: "list_all2 (\<lambda>c i. \<forall>n\<in>set c. map_of m n = Some i) cs ids"
    and di: "distinct ids"
    unfolding partition_of_def by blast+
  have mk: "map fst m = concat cs" by (simp add: m_def)
  then have keys: "fst ` set m = set (concat cs)" by (metis set_map)
  have dk: "distinct (map fst m)" using d mk by simp
  have fr: "\<forall>i\<in>set ids. \<not> has_node g i \<and> i \<notin> fst ` set m"
  proof
    fix i assume "i \<in> set ids"
    then have "s \<le> i" by (auto simp add: ids_def)
    have "i \<notin> set (node_ids g)"
    proof
      assume "i \<in> set (node_ids g)"
      from max_id_fresh[OF this] \<open>s \<le> i\<close> show False by (simp add: s_def)
    qed
    then show "\<not> has_node g i \<and> i \<notin> fst ` set m"
      using keys inn by (auto simp add: has_node_iff)
  qed
  have "\<forall>c\<in>set cs. c \<noteq> [] \<and> set c \<subseteq> set (node_ids g)"
    using ne inn by auto
  from create_nodes_succeed[OF la this] obtain g1 where
    run1: "for_each (create_cluster_node_rnd rnd m) cs g = Inr g1" by blast
  have old: "\<forall>p\<in>set m. has_node g (fst p)"
    using keys inn by (auto simp add: has_node_iff)
  have "\<exists>g'. for_each (reassign_edges m) m g1 = Inr g'"
    using wf run1 part fr old by (rule reassign_after_create)
  then show ?thesis
    by (auto simp add: merge_clusters_rnd_def cm run1 and_then_def)
qed

subsection \<open>Labels\<close>

lemma labels_accumulated:
  "labels (accumulated g c acc) = labels acc @ concat (map (label_in g) c)"
  unfolding accumulated_rnd_def
  by (induction c arbitrary: acc)
     (simp_all add: accumulate_node_rnd_def Let_def label_in_def attrs_in_def)

lemma label_cluster_attrs:
  "get_label i (cluster_attrs g c) = concat (map (label_in g) c)"
  by (simp add: cluster_attrs_rnd_def Let_def get_label_def labels_accumulated initial_acc_def)

lemma sum_list_filter_split:
  "sum_list (map F xs) =
     sum_list (map F (filter P xs)) + (sum_list (map F (filter (\<lambda>x. \<not> P x) xs)) :: 'a multiset)"
  by (induction xs) auto

lemma node_label_in:
  "distinct (map fst (nodes g)) \<Longrightarrow> p \<in> set (nodes g) \<Longrightarrow>
   get_label (fst p) (snd p) = label_in g (fst p)"
proof -
  assume "distinct (map fst (nodes g))" and "p \<in> set (nodes g)"
  then have "map_of (nodes g) (fst p) = Some (snd p)" by simp
  then show ?thesis by (simp add: label_in_def attrs_in_def node_attrs_def)
qed

lemma labels_of_keys:
  assumes "distinct (map fst (nodes g))" and "distinct ks" and "set ks \<subseteq> set (node_ids g)"
  shows "sum_list (map (\<lambda>p. mset (get_label (fst p) (snd p)))
            (filter (\<lambda>p. fst p \<in> set ks) (nodes g))) =
         sum_list (map (\<lambda>k. mset (label_in g k)) ks)"
proof -
  let ?L = "filter (\<lambda>k. k \<in> set ks) (map fst (nodes g))"
  have "map (\<lambda>p. mset (get_label (fst p) (snd p))) (filter (\<lambda>p. fst p \<in> set ks) (nodes g)) =
        map (\<lambda>p. mset (label_in g (fst p))) (filter (\<lambda>p. fst p \<in> set ks) (nodes g))"
    using assms(1) by (intro map_cong) (auto simp add: node_label_in)
  also have "\<dots> = map (\<lambda>k. mset (label_in g k)) ?L"
    by (simp add: filter_map comp_def)
  finally have a: "sum_list (map (\<lambda>p. mset (get_label (fst p) (snd p)))
            (filter (\<lambda>p. fst p \<in> set ks) (nodes g))) =
         sum_list (map (\<lambda>k. mset (label_in g k)) ?L)"
    by simp
  have "distinct ?L" using assms(1) by simp
  moreover have "set ?L = set ks" using assms(3) by (auto simp add: node_ids_def)
  ultimately have "mset ?L = mset ks"
    using assms(2) set_eq_iff_mset_eq_distinct[of ?L ks] by blast
  then have "mset (map (\<lambda>k. mset (label_in g k)) ?L) = mset (map (\<lambda>k. mset (label_in g k)) ks)"
    by (metis mset_map)
  then have "sum_list (map (\<lambda>k. mset (label_in g k)) ?L) =
      sum_list (map (\<lambda>k. mset (label_in g k)) ks)"
    by (metis sum_mset_sum_list)
  then show ?thesis using a by simp
qed

lemma mset_concat_sum:
  "mset (concat (map L c)) = sum_list (map (\<lambda>n. mset (L n)) c)"
  by (induction c) simp_all

lemma sum_list_concat_clusters:
  "sum_list (map (\<lambda>c. mset (concat (map L c))) cl) =
   sum_list (map (\<lambda>n. mset (L n)) (concat cl))"
  by (induction cl) (simp_all add: mset_concat_sum)

lemma sum_list_mset_cong:
  "mset xs = mset ys \<Longrightarrow> sum_list (map F xs) = (sum_list (map F ys) :: 'a multiset)"
  by (metis mset_map sum_mset_sum_list)

lemma merge_clusters_labels:
  assumes wf: "wf_graph g" and run: "merge_clusters g c = Inr g'"
    and fresh: "fresh_new_ids g c"
  shows "all_labels g' = all_labels g"
proof -
  from merge_clusters_result[OF assms] obtain m cl ids where
    part: "partition_of m cl ids" and old: "fst ` set m \<subseteq> set (node_ids g)"
    and n': "nodes g' = filter (\<lambda>p. fst p \<notin> fst ` set m) (nodes g) @
                      map (\<lambda>p. (snd p, cluster_attrs g (fst p))) (zip cl ids)"
    by blast
  have dk: "distinct (map fst m)" and ms: "mset (concat cl) = mset (map fst m)"
    and la: "list_all2 (\<lambda>c i. \<forall>n\<in>set c. map_of m n = Some i) cl ids"
    using part unfolding partition_of_def by blast+
  have len: "length cl = length ids" using la by (rule list_all2_lengthD)
  let ?F = "\<lambda>p. mset (get_label (fst p) (snd p))"
  let ?G = "\<lambda>n. mset (label_in g n)"
  have "sum_list (map ?F (map (\<lambda>p. (snd p, cluster_attrs g (fst p))) (zip cl ids))) =
        sum_list (map (\<lambda>c. mset (concat (map (label_in g) c))) (map fst (zip cl ids)))"
    by (simp add: comp_def label_cluster_attrs)
  also have "\<dots> = sum_list (map ?G (concat cl))"
    using len by (simp add: sum_list_concat_clusters)
  also have "\<dots> = sum_list (map ?G (map fst m))"
    using ms by (rule sum_list_mset_cong)
  also have "\<dots> = sum_list (map ?F (filter (\<lambda>p. fst p \<in> set (map fst m)) (nodes g)))"
    using labels_of_keys[OF wf_graph_nodes[OF wf] dk] old by simp
  finally have new: "sum_list (map ?F (map (\<lambda>p. (snd p, cluster_attrs g (fst p))) (zip cl ids))) =
      sum_list (map ?F (filter (\<lambda>p. fst p \<in> fst ` set m) (nodes g)))"
    by simp
  have "all_labels g' = sum_list (map ?F (filter (\<lambda>p. fst p \<in> fst ` set m) (nodes g))) +
      sum_list (map ?F (filter (\<lambda>p. fst p \<notin> fst ` set m) (nodes g)))"
    unfolding all_labels_def n' using new by (simp add: add.commute)
  also have "\<dots> = all_labels g"
    unfolding all_labels_def
    by (rule sum_list_filter_split[symmetric])
  finally show ?thesis .
qed

lemma merge_nodes_labels:
  assumes wf: "wf_graph g" and run: "merge_nodes g i j = Inr g'"
  shows "all_labels g' = all_labels g"
proof -
  from merge_nodes_Inr_pre[OF run] obtain ai aj vi vj where
    p: "node_attrs g i = Some ai" "node_attrs g j = Some aj"
       "nvalue ai = Some vi" "nvalue aj = Some vj"
       "0 < length (get_label i ai) + length (get_label j aj)" "i \<noteq> j"
    by blast
  from merge_nodes_result[OF wf p(6) p(1-5)] run obtain A where
    n': "nodes g' = filter (\<lambda>p. fst p \<noteq> i \<and> fst p \<noteq> j) (nodes g) @
           [(Max (set (node_ids g)) + 1, A)]"
    and lA: "label A = Some (get_label i ai @ get_label j aj)"
    by auto
  let ?F = "\<lambda>p. mset (get_label (fst p) (snd p))"
  have li: "label_in g i = get_label i ai" and lj: "label_in g j = get_label j aj"
    using p(1,2) by (simp_all add: label_in_def attrs_in_def)
  have in_nodes: "set [i, j] \<subseteq> set (node_ids g)"
    using p(1,2) by (simp add: has_node_iff[symmetric] has_node_def)
  have d: "distinct [i, j]" using p(6) by simp
  have "sum_list (map ?F (filter (\<lambda>p. fst p \<in> set [i, j]) (nodes g))) =
      mset (get_label i ai) + mset (get_label j aj)"
    using labels_of_keys[OF wf_graph_nodes[OF wf] d in_nodes] by (simp add: li lj)
  moreover have "filter (\<lambda>p. fst p \<notin> set [i, j]) (nodes g) =
      filter (\<lambda>p. fst p \<noteq> i \<and> fst p \<noteq> j) (nodes g)"
    by (rule filter_cong) auto
  ultimately have "all_labels g' =
      sum_list (map ?F (filter (\<lambda>p. fst p \<in> set [i, j]) (nodes g))) +
      sum_list (map ?F (filter (\<lambda>p. fst p \<notin> set [i, j]) (nodes g)))"
    unfolding all_labels_def n' by (simp add: get_label_def lA)
  also have "\<dots> = all_labels g"
    unfolding all_labels_def by (rule sum_list_filter_split[symmetric])
  finally show ?thesis .
qed

subsection \<open>Bounds\<close>

lemma accumulate_node_invariant:
  assumes "acc_invariant acc" and "bounded_node (n, a)"
  shows "acc_invariant (accumulate_node n a acc)"
proof -
  from assms(2) obtain v where v: "nvalue a = Some v"
    and lo: "get_min_value a v \<le> v" and hi: "v \<le> get_max_value a v"
    and ne: "get_label n a \<noteq> []"
    by (auto simp add: bounded_node_def value_in_bounds_def split: option.splits)
  define w where "w = real (length (get_label n a))"
  have w: "0 < w" using ne by (simp add: w_def)
  have low: "get_min_value a v * w \<le> v * w" using lo w by (simp add: mult_right_mono)
  have high: "v * w \<le> get_max_value a v * w" using hi w by (simp add: mult_right_mono)
  show ?thesis
  proof (cases "acc_min acc")
    case None
    then have z: "acc_max acc = None" "total_weight acc = 0" "total_value acc = 0"
      "length (labels acc) = 0"
      using assms(1) by (auto simp add: acc_invariant_def split: option.splits)
    show ?thesis
      using low high ne z
      by (simp add: acc_invariant_def accumulate_node_rnd_def Let_def v None w_def)
  next
    case (Some l)
    then obtain h where h: "acc_max acc = Some h"
      and inv: "0 < total_weight acc" "l * real (total_weight acc) \<le> total_value acc"
        "total_value acc \<le> h * real (total_weight acc)"
        "length (labels acc) = total_weight acc"
      using assms(1) by (auto simp add: acc_invariant_def split: option.splits)
    define W where "W = real (total_weight acc)"
    have W: "0 < W" using inv(1) by (simp add: W_def)
    have "min l (get_min_value a v) * W \<le> l * W"
      using W by (simp add: mult_right_mono)
    moreover have "min l (get_min_value a v) * w \<le> get_min_value a v * w"
      using w by (simp add: mult_right_mono)
    ultimately have a: "min l (get_min_value a v) * (W + w) \<le> total_value acc + v * w"
      using inv(2) low by (simp add: W_def distrib_left)
    have "h * W \<le> max h (get_max_value a v) * W"
      using W by (simp add: mult_right_mono)
    moreover have "get_max_value a v * w \<le> max h (get_max_value a v) * w"
      using w by (simp add: mult_right_mono)
    ultimately have b: "total_value acc + v * w \<le> max h (get_max_value a v) * (W + w)"
      using inv(3) high by (simp add: W_def distrib_left)
    show ?thesis
      using a b inv(1,4)
      by (simp add: acc_invariant_def accumulate_node_rnd_def Let_def v Some h w_def W_def)
  qed
qed

lemma accumulated_invariant:
  "acc_invariant acc \<Longrightarrow> \<forall>n\<in>set c. bounded_node (n, attrs_in g n) \<Longrightarrow>
   acc_invariant (accumulated g c acc)"
  unfolding accumulated_rnd_def
proof (induction c arbitrary: acc)
  case Nil
  then show ?case by simp
next
  case (Cons n c)
  have "acc_invariant (accumulate_node n (attrs_in g n) acc)"
    using Cons.prems by (intro accumulate_node_invariant) simp_all
  then show ?case
    using Cons.IH[of "accumulate_node n (attrs_in g n) acc"] Cons.prems(2)
    by (simp add: attrs_in_def)
qed

lemma accumulated_weight:
  "total_weight (accumulated g c acc) = total_weight acc + length (concat (map (label_in g) c))"
  unfolding accumulated_rnd_def
  by (induction c arbitrary: acc)
     (simp_all add: accumulate_node_rnd_def Let_def label_in_def attrs_in_def)

lemma cluster_attrs_bounded:
  assumes "c \<noteq> []" and "\<forall>n\<in>set c. bounded_node (n, attrs_in g n)"
  shows "bounded_node (i, cluster_attrs g c)"
proof -
  define acc where "acc = accumulated g c initial_acc"
  have "acc_invariant initial_acc" by (simp add: acc_invariant_def initial_acc_def)
  then have inv: "acc_invariant acc"
    unfolding acc_def using assms(2) by (rule accumulated_invariant)
  obtain n rest where c: "c = n # rest" using assms(1) by (cases c) auto
  have "label_in g n \<noteq> []" using assms(2) c by (simp add: bounded_node_def label_in_def)
  then have pos: "0 < total_weight acc"
    by (simp add: acc_def accumulated_weight initial_acc_def c)
  then obtain l h where lh: "acc_min acc = Some l" "acc_max acc = Some h"
    and b: "l * real (total_weight acc) \<le> total_value acc"
      "total_value acc \<le> h * real (total_weight acc)"
    and len: "length (labels acc) = total_weight acc"
    using inv by (auto simp add: acc_invariant_def split: option.splits)
  have "l \<le> total_value acc / real (total_weight acc)"
    using b(1) pos by (simp add: pos_le_divide_eq)
  moreover have "total_value acc / real (total_weight acc) \<le> h"
    using b(2) pos by (simp add: pos_divide_le_eq)
  moreover have "labels acc \<noteq> []" using len pos by auto
  ultimately show ?thesis
    using pos lh
    by (simp add: bounded_node_def value_in_bounds_def cluster_attrs_rnd_def Let_def
        acc_def[symmetric] get_min_value_def get_max_value_def get_label_def)
qed

lemma bounded_filter: "bounded_graph g \<Longrightarrow> list_all bounded_node (filter P (nodes g))"
  by (simp add: bounded_graph_def list_all_iff)

lemma bounded_attrs_in:
  assumes "wf_graph g" and "bounded_graph g" and "n \<in> set (node_ids g)"
  shows "bounded_node (n, attrs_in g n)"
proof -
  from assms(3) obtain a where a: "(n, a) \<in> set (nodes g)" by (auto simp add: node_ids_def)
  then have "map_of (nodes g) n = Some a" using wf_graph_nodes[OF assms(1)] by simp
  then have "attrs_in g n = a" by (simp add: attrs_in_def node_attrs_def)
  then show ?thesis using assms(2) a by (auto simp add: bounded_graph_def list_all_iff)
qed

lemma merge_clusters_bounded:
  assumes wf: "wf_graph g" and run: "merge_clusters g c = Inr g'"
    and fresh: "fresh_new_ids g c" and b: "bounded_graph g"
  shows "bounded_graph g'"
proof -
  from merge_clusters_result[OF wf run fresh] obtain m cl ids where
    part: "partition_of m cl ids" and old: "fst ` set m \<subseteq> set (node_ids g)"
    and ne: "\<forall>c\<in>set cl. c \<noteq> []"
    and n': "nodes g' = filter (\<lambda>p. fst p \<notin> fst ` set m) (nodes g) @
                      map (\<lambda>p. (snd p, cluster_attrs g (fst p))) (zip cl ids)"
    by blast
  have ms: "mset (concat cl) = mset (map fst m)"
    using part unfolding partition_of_def by blast
  then have keys: "set (concat cl) = fst ` set m" by (metis set_mset_mset set_map)
  have "bounded_node (snd q, cluster_attrs g (fst q))" if "q \<in> set (zip cl ids)" for q
  proof (rule cluster_attrs_bounded)
    have in_cl: "fst q \<in> set cl" using that by (metis prod.collapse set_zip_leftD)
    then show "fst q \<noteq> []" using ne by simp
    have "set (fst q) \<subseteq> set (node_ids g)" using in_cl keys old by auto
    then show "\<forall>n\<in>set (fst q). bounded_node (n, attrs_in g n)"
      using bounded_attrs_in[OF wf b] by auto
  qed
  then have "list_all bounded_node (map (\<lambda>p. (snd p, cluster_attrs g (fst p))) (zip cl ids))"
    by (simp add: list_all_iff)
  then show ?thesis
    using bounded_filter[OF b, of "\<lambda>p. fst p \<notin> fst ` set m"]
    by (simp add: bounded_graph_def n')
qed

lemma weighted_average_lower:
  fixes lo :: real
  assumes "lo \<le> vi" "lo \<le> vj" "0 \<le> wi" "0 \<le> wj" "0 < wi + wj"
  shows "lo \<le> (vi * wi + vj * wj) / (wi + wj)"
proof -
  have "lo * wi \<le> vi * wi" "lo * wj \<le> vj * wj"
    using assms by (simp_all add: mult_right_mono)
  then have "lo * (wi + wj) \<le> vi * wi + vj * wj" by (simp add: distrib_left)
  then show ?thesis using assms(5) by (simp add: pos_le_divide_eq)
qed

lemma weighted_average_upper:
  fixes hi :: real
  assumes "vi \<le> hi" "vj \<le> hi" "0 \<le> wi" "0 \<le> wj" "0 < wi + wj"
  shows "(vi * wi + vj * wj) / (wi + wj) \<le> hi"
proof -
  have "vi * wi \<le> hi * wi" "vj * wj \<le> hi * wj"
    using assms by (simp_all add: mult_right_mono)
  then have "vi * wi + vj * wj \<le> hi * (wi + wj)" by (simp add: distrib_left)
  then show ?thesis using assms(5) by (simp add: pos_divide_le_eq)
qed

lemma merge_nodes_bounded:
  assumes wf: "wf_graph g" and run: "merge_nodes g i j = Inr g'" and b: "bounded_graph g"
  shows "bounded_graph g'"
proof -
  from merge_nodes_Inr_pre[OF run] obtain ai aj vi vj where
    p: "node_attrs g i = Some ai" "node_attrs g j = Some aj"
       "nvalue ai = Some vi" "nvalue aj = Some vj"
       "0 < length (get_label i ai) + length (get_label j aj)" "i \<noteq> j"
    by blast
  let ?wi = "real (length (get_label i ai))" and ?wj = "real (length (get_label j aj))"
  let ?A = "\<lparr>nvalue = Some ((vi * ?wi + vj * ?wj)
                          / real (length (get_label i ai) + length (get_label j aj))),
          label = Some (get_label i ai @ get_label j aj),
          min_value = Some (min (get_min_value ai vi) (get_min_value aj vj)),
          max_value = Some (max (get_max_value ai vi) (get_max_value aj vj)),
          importance = None\<rparr>"
  from merge_nodes_result[OF wf p(6) p(1-5)] run have
    n': "nodes g' = filter (\<lambda>p. fst p \<noteq> i \<and> fst p \<noteq> j) (nodes g) @
           [(Max (set (node_ids g)) + 1, ?A)]"
    by auto
  have "(i, ai) \<in> set (nodes g)" "(j, aj) \<in> set (nodes g)"
    using p(1,2) by (simp_all add: node_attrs_def map_of_SomeD)
  then have "bounded_node (i, ai)" "bounded_node (j, aj)"
    using b by (auto simp add: bounded_graph_def list_all_iff)
  then have bi: "get_min_value ai vi \<le> vi" "vi \<le> get_max_value ai vi"
    and bj: "get_min_value aj vj \<le> vj" "vj \<le> get_max_value aj vj"
    using p(3,4) by (simp_all add: bounded_node_def value_in_bounds_def)
  have "0 < real (length (get_label i ai) + length (get_label j aj))"
    using p(5) by (simp del: of_nat_add)
  then have pos: "0 < ?wi + ?wj" by simp
  have lo: "min (get_min_value ai vi) (get_min_value aj vj)
      \<le> (vi * ?wi + vj * ?wj) / real (length (get_label i ai) + length (get_label j aj))"
    using weighted_average_lower[of "min (get_min_value ai vi) (get_min_value aj vj)"
        vi vj ?wi ?wj] bi(1) bj(1) pos by simp
  have hi: "(vi * ?wi + vj * ?wj) / real (length (get_label i ai) + length (get_label j aj))
      \<le> max (get_max_value ai vi) (get_max_value aj vj)"
    using weighted_average_upper[of vi "max (get_max_value ai vi) (get_max_value aj vj)"
        vj ?wi ?wj] bi(2) bj(2) pos by simp
  have "get_label i ai @ get_label j aj \<noteq> []" using p(5) by auto
  then have "bounded_node (Max (set (node_ids g)) + 1, ?A)"
    using lo hi
    by (simp add: bounded_node_def value_in_bounds_def get_min_value_def get_max_value_def
        get_label_def del: of_nat_add)
  then show ?thesis
    using bounded_filter[OF b, of "\<lambda>p. fst p \<noteq> i \<and> fst p \<noteq> j"]
    by (simp add: bounded_graph_def n' del: of_nat_add)
qed

subsection \<open>Sequences of merges\<close>

lemma apply_merge_step:
  assumes "wf_graph g" and "fresh_along (op # ops) g" and "apply_merge op g = Inr h"
  shows "wf_graph h \<and> fresh_along ops h \<and> all_labels h = all_labels g \<and>
         (bounded_graph g \<longrightarrow> bounded_graph h)"
proof (cases op)
  case (MergeNodes i j)
  then have run: "merge_nodes g i j = Inr h" using assms(3) by simp
  then have "fresh_along ops h" using assms(2) MergeNodes by simp
  then show ?thesis
    using wf_merge_nodes[OF assms(1) run] merge_nodes_labels[OF assms(1) run]
      merge_nodes_bounded[OF assms(1) run] by simp
next
  case (MergeClusters c)
  then have run: "merge_clusters g c = Inr h" using assms(3) by simp
  have fresh: "fresh_new_ids g c" and rest: "fresh_along ops h"
    using assms(2) MergeClusters run by simp_all
  have "wf_graph h" using merge_clusters_result[OF assms(1) run fresh] by blast
  then show ?thesis
    using rest merge_clusters_labels[OF assms(1) run fresh]
      merge_clusters_bounded[OF assms(1) run fresh] by simp
qed

lemma fan_example_wf: "wf_graph fan_example"
  by (simp add: fan_example_eq wf_graph_def node_ids_def)

lemma two_merges_fan_example:
  "for_each apply_merge two_merges fan_example =
     Inr \<lparr>nodes = [(4, \<lparr>nvalue = Some (1 / 2), label = Some [2, 0, 1], min_value = Some (1 / 5),
                        max_value = Some (4 / 5), importance = None\<rparr>)],
          edges = []\<rparr>"
  by (simp add: two_merges_def fan_example_eq eval_defs)

lemma two_merges_fresh: "fresh_along two_merges fan_example"
  by (simp add: two_merges_def fresh_new_ids_list split: sum.splits)

text \<open>
  Along every sequence of \<^verbatim>\<open>merge_nodes\<close> and \<^verbatim>\<open>merge_clusters\<close> calls that all complete and
  in which no new id of a \<^verbatim>\<open>merge_clusters\<close> call is a node of the graph at that moment or
  one of the ids the call merges, the multiset of the labels of all nodes stays what it
  was.
\<close>

lemma fresh_merges_conserve_labels:
  assumes "wf_graph g" and "fresh_along ops g" and "for_each apply_merge ops g = Inr g'"
  shows "all_labels g' = all_labels g"
  using assms
proof (induction ops arbitrary: g)
  case Nil
  then show ?case by simp
next
  case (Cons op ops)
  from Cons.prems(3) obtain h where
    h: "apply_merge op g = Inr h" and run: "for_each apply_merge ops h = Inr g'"
    by (auto simp add: and_then_Inr)
  from apply_merge_step[OF Cons.prems(1,2) h] have
    "wf_graph h" "fresh_along ops h" "all_labels h = all_labels g"
    by simp_all
  then show ?case using Cons.IH[OF _ _ run] by simp
qed

lemma fresh_along_list_form: "list_all list_form ops \<Longrightarrow> fresh_along ops g"
proof (induction ops arbitrary: g)
  case Nil
  then show ?case by simp
next
  case (Cons op ops)
  then show ?case
    by (cases op rule: list_form.cases) (simp_all add: fresh_new_ids_list split: sum.splits)
qed

text \<open>
  \<^verbatim>\<open>merge_nodes\<close> and the list form of \<^verbatim>\<open>merge_clusters\<close> allocate the new ids above the
  greatest id of the graph, so every sequence of them that completes conserves the
  labels: no original id is lost and none is duplicated.
\<close>

lemma list_merges_conserve_labels:
  assumes "wf_graph g" and "list_all list_form ops" and "for_each apply_merge ops g = Inr g'"
  shows "all_labels g' = all_labels g"
  using assms(1) fresh_along_list_form[OF assms(2)] assms(3)
  by (rule fresh_merges_conserve_labels)

text \<open>
  On the three nodes 0, 1 and 2 labelled with their own ids: after the nodes 0 and 1 are
  merged as a cluster and the result is merged with node 2, the one node left carries
  the three ids.
\<close>

lemma two_merges_conserve_labels:
  "list_all list_form two_merges \<and> all_labels fan_example = {#0, 1, 2#} \<and>
   (\<exists>g'. for_each apply_merge two_merges fan_example = Inr g' \<and> length (nodes g') = 1 \<and>
      all_labels g' = {#0, 1, 2#})"
proof -
  have l: "all_labels fan_example = {#0, 1, 2#}"
    by (simp add: fan_example_eq all_labels_def get_label_def no_attrs_def)
  have f: "list_all list_form two_merges" by (simp add: two_merges_def)
  obtain g' where g': "for_each apply_merge two_merges fan_example = Inr g'"
    "length (nodes g') = 1"
    using two_merges_fan_example by simp
  have "all_labels g' = {#0, 1, 2#}"
    using list_merges_conserve_labels[OF fan_example_wf f g'(1)] l by simp
  then show ?thesis using f l g' by blast
qed

text \<open>
  Claim C6 fails for the dictionary form of \<^verbatim>\<open>merge_clusters\<close>, which takes the new ids from
  the caller and checks none of them. On the nodes 0, 1 and 2 labelled with their own
  ids, \<^verbatim>\<open>merge_clusters({2: [0, 1]})\<close> completes and writes the merged attributes over
  node 2: the labels left are 0 and 1, the id 2 is lost. No new node is created, where
  the method's documentation says that a new node is created for each cluster. The list
  form \<^verbatim>\<open>merge_clusters([[0, 1]])\<close> on the same graph allocates the new id 3 and keeps
  the three ids.
\<close>

theorem merge_clusters_dict_loses_label:
  "all_labels fan_example = {#0, 1, 2#} \<and>
   merge_clusters fan_example (ClusterDict [(2, OldIds [0, 1])]) =
     Inr \<lparr>nodes = [(2, \<lparr>nvalue = Some (1 / 2), label = Some [0, 1], min_value = Some (1 / 5),
                        max_value = Some (4 / 5), importance = Some 0\<rparr>)],
          edges = []\<rparr> \<and>
   all_labels \<lparr>nodes = [(2, \<lparr>nvalue = Some (1 / 2), label = Some [0, 1],
                               min_value = Some (1 / 5), max_value = Some (4 / 5),
                               importance = Some 0\<rparr>)],
               edges = []\<rparr> = {#0, 1#} \<and>
   (\<exists>g'. merge_clusters fan_example (ClusterList [[0, 1]]) = Inr g' \<and>
      map fst (nodes g') = [2, 3] \<and> all_labels g' = {#0, 1, 2#})"
  by (simp add: fan_example_eq eval_defs all_labels_def)

subsection \<open>Bounds under rounding\<close>















text \<open>
  With exact arithmetic in place of the floating-point operations: in a graph whose nodes
  all carry a value between their lower and upper bounds and a label that is not empty,
  the same holds of every node after every sequence of \<^verbatim>\<open>merge_nodes\<close> and
  \<^verbatim>\<open>merge_clusters\<close> calls that all complete and in which no new id of a \<^verbatim>\<open>merge_clusters\<close>
  call is a node of the graph at that moment or one of the ids the call merges, so after
  every sequence of \<^verbatim>\<open>merge_nodes\<close> and list-form \<^verbatim>\<open>merge_clusters\<close> calls.
\<close>

lemma exact_merges_keep_bounds:
  assumes "wf_graph g" and "bounded_graph g" and "fresh_along ops g"
    and "for_each apply_merge ops g = Inr g'"
  shows "bounded_graph g'"
  using assms
proof (induction ops arbitrary: g)
  case Nil
  then show ?case by simp
next
  case (Cons op ops)
  from Cons.prems(4) obtain h where
    h: "apply_merge op g = Inr h" and run: "for_each apply_merge ops h = Inr g'"
    by (auto simp add: and_then_Inr)
  from apply_merge_step[OF Cons.prems(1,3) h] Cons.prems(2) have
    "wf_graph h" "fresh_along ops h" "bounded_graph h"
    by simp_all
  then show ?case using Cons.IH[OF _ _ _ run] by simp
qed

lemma exact_list_merges_keep_bounds:
  assumes "wf_graph g" and "bounded_graph g" and "list_all list_form ops"
    and "for_each apply_merge ops g = Inr g'"
  shows "bounded_graph g'"
  using assms(1,2) fresh_along_list_form[OF assms(3)] assms(4)
  by (rule exact_merges_keep_bounds)

text \<open>
  When the labels of a cluster are all empty, \<^verbatim>\<open>merge_clusters\<close> gives the new node the
  value 0 (\<^verbatim>\<open>total_value / total_weight if total_weight > 0 else 0\<close>) and the bounds of the
  merged nodes, here 0.5 and 0.5.
\<close>

lemma empty_labels_value_zero:
  "wf_graph empty_label_example \<and> values_in_bounds empty_label_example \<and>
   (\<exists>g'. merge_clusters empty_label_example (ClusterList [[0]]) = Inr g' \<and>
      nodes g' = [(1, \<lparr>nvalue = Some 0, label = Some [], min_value = Some (1 / 2),
                       max_value = Some (1 / 2), importance = Some 0\<rparr>)] \<and>
      \<not> values_in_bounds g')"
  by (simp add: empty_label_example_def empty_graph_def eval_defs wf_graph_def
      values_in_bounds_def value_in_bounds_def)

subsection \<open>The rounding of doubles at work\<close>

text \<open>
  \<open>round_double\<close> is the rounding to the nearest double: the exponent it finds is the
  exponent of the number, the rounded significand has 53 binary digits (or is the next
  power of two), the result is at most half a quantum away from the number, and the
  rounding is symmetric about 0.
\<close>

lemma round_half_even_near: "\<bar>real_of_int (round_half_even x) - x\<bar> \<le> 1 / 2"
  unfolding round_half_even_def Let_def by (auto simp add: abs_le_iff)

lemma round_half_even_int [simp]: "round_half_even (of_int k) = k"
  by (simp add: round_half_even_def)

lemma round_half_even_mono: "x \<le> y \<Longrightarrow> round_half_even x \<le> round_half_even y"
proof -
  assume xy: "x \<le> y"
  have f: "\<lfloor>x\<rfloor> \<le> \<lfloor>y\<rfloor>" using xy by (rule floor_mono)
  show ?thesis
  proof (cases "\<lfloor>x\<rfloor> = \<lfloor>y\<rfloor>")
    case True
    then show ?thesis using xy by (auto simp add: round_half_even_def Let_def)
  next
    case False
    then have "\<lfloor>x\<rfloor> + 1 \<le> \<lfloor>y\<rfloor>" using f by simp
    moreover have "round_half_even x \<le> \<lfloor>x\<rfloor> + 1" by (simp add: round_half_even_def Let_def)
    moreover have "\<lfloor>y\<rfloor> \<le> round_half_even y" by (simp add: round_half_even_def Let_def)
    ultimately show ?thesis by linarith
  qed
qed

lemma quantum_pos: "0 < quantum e"
  by (simp add: quantum_def)

lemma round_double_minus: "round_double (- x) = - round_double x"
  by (simp add: round_double_def Let_def sgn_minus)

lemma round_double_near:
  "\<bar>round_double x - x\<bar> \<le> quantum (max (binary_exponent \<bar>x\<bar>) (- 1022)) / 2"
proof (cases "x = 0")
  case True
  then show ?thesis using quantum_pos[of "max (binary_exponent \<bar>x\<bar>) (- 1022)"]
    by (simp add: round_double_def)
next
  case False
  define q where "q = quantum (max (binary_exponent \<bar>x\<bar>) (- 1022))"
  have q: "0 < q" unfolding q_def by (rule quantum_pos)
  define m where "m = real_of_int (round_half_even (\<bar>x\<bar> / q))"
  have "\<bar>m - \<bar>x\<bar> / q\<bar> \<le> 1 / 2" unfolding m_def by (rule round_half_even_near)
  then have "\<bar>m - \<bar>x\<bar> / q\<bar> * \<bar>q\<bar> \<le> 1 / 2 * q" using q by (simp add: mult_right_mono)
  moreover have "(m - \<bar>x\<bar> / q) * q = m * q - \<bar>x\<bar>"
    using q by (simp add: left_diff_distrib)
  ultimately have "\<bar>m * q - \<bar>x\<bar>\<bar> \<le> q / 2"
    by (metis abs_mult times_divide_eq_left mult_1)
  moreover have "round_double x - x = sgn x * (m * q - \<bar>x\<bar>)"
    using False by (simp add: round_double_def Let_def q_def m_def right_diff_distrib
        sgn_mult_abs)
  ultimately show ?thesis
    using False by (simp add: abs_mult q_def[symmetric] abs_sgn_eq)
qed

lemma bit_length_bounds: "0 < n \<Longrightarrow> 2 ^ (bit_length n - 1) \<le> n \<and> n < 2 ^ bit_length n"
proof (induction n rule: bit_length.induct)
  case (1 n)
  show ?case
  proof (cases "n div 2 = 0")
    case True
    then have "n = 1" using 1(2) by (auto simp add: div_eq_0_iff)
    then show ?thesis by (simp add: bit_length.simps)
  next
    case False
    then have pos: "0 < n div 2" by simp
    from 1(1)[OF _ pos] 1(2) have
      ih: "2 ^ (bit_length (n div 2) - 1) \<le> n div 2" "n div 2 < 2 ^ bit_length (n div 2)"
      by simp_all
    have bl: "bit_length n = Suc (bit_length (n div 2))"
      using 1(2) by (subst bit_length.simps) simp
    have b1: "0 < bit_length (n div 2)" using pos by (subst bit_length.simps) simp
    have "2 * 2 ^ (bit_length (n div 2) - 1) \<le> n" using ih(1) by linarith
    moreover have "2 * 2 ^ (bit_length (n div 2) - 1) = (2::nat) ^ bit_length (n div 2)"
      using b1 by (cases "bit_length (n div 2)") simp_all
    moreover have "n < 2 * 2 ^ bit_length (n div 2)" using ih(2) by linarith
    ultimately show ?thesis by (simp add: bl)
  qed
qed


lemma quantum_powi: "quantum e = 2 powi (e - 52)"
  by (simp add: quantum_def power_int_def inverse_eq_divide power_one_over[symmetric]
      del: power_one_over)

lemma real_power_le: "2 ^ a \<le> (n::nat) \<Longrightarrow> (2::real) ^ a \<le> real n"
proof -
  assume "2 ^ a \<le> n"
  then have "real (2 ^ a) \<le> real n" by (simp only: of_nat_le_iff)
  then show ?thesis by simp
qed

lemma real_power_gt: "(n::nat) < 2 ^ a \<Longrightarrow> real n + 1 \<le> (2::real) ^ a"
proof -
  assume "n < 2 ^ a"
  then have "Suc n \<le> 2 ^ a" by simp
  then have "real (Suc n) \<le> real (2 ^ a)" by (simp only: of_nat_le_iff)
  then show ?thesis by simp
qed

lemma binary_exponent_bounds:
  assumes "0 < x"
  shows "2 powi binary_exponent x \<le> x \<and> x < 2 powi (binary_exponent x + 1)"
proof (cases "1 \<le> x")
  case True
  define n where "n = nat \<lfloor>x\<rfloor>"
  have n: "0 < n" using True by (simp add: n_def)
  from bit_length_bounds[OF n] have b: "2 ^ (bit_length n - 1) \<le> n" "n < 2 ^ bit_length n"
    by simp_all
  have bl: "0 < bit_length n" using n by (subst bit_length.simps) simp
  have e: "binary_exponent x = int (bit_length n - 1)"
    using True bl by (simp add: binary_exponent_def n_def of_nat_diff)
  have e1: "binary_exponent x + 1 = int (bit_length n)" using bl by (simp add: e)
  have nx: "real n \<le> x" "x < real n + 1"
    using True by (simp_all add: n_def)
  have "(2::real) ^ (bit_length n - 1) \<le> x"
    using real_power_le[OF b(1)] nx(1) by linarith
  moreover have "x < 2 ^ bit_length n"
    using real_power_gt[OF b(2)] nx(2) by linarith
  ultimately show ?thesis
    unfolding e1 unfolding e by (simp only: power_int_of_nat)
next
  case False
  define y where "y = 1 / x"
  have y: "1 < y" using assms False by (simp add: y_def)
  define k where "k = nat (\<lceil>y\<rceil> - 1)"
  have c: "2 \<le> \<lceil>y\<rceil>" using y by linarith
  then have k: "0 < k" by (simp add: k_def)
  have ky: "real k < y" "y \<le> real k + 1"
    using c by (simp_all add: k_def) linarith+
  from bit_length_bounds[OF k] have b: "2 ^ (bit_length k - 1) \<le> k" "k < 2 ^ bit_length k"
    by simp_all
  have bl: "0 < bit_length k" using k by (subst bit_length.simps) simp
  have e: "binary_exponent x = - int (bit_length k)"
    using False by (simp add: binary_exponent_def k_def y_def)
  have e1: "binary_exponent x + 1 = - int (bit_length k - 1)" using bl by (simp add: e)
  have lo: "(2::real) ^ (bit_length k - 1) < y" using real_power_le[OF b(1)] ky(1) by linarith
  have hi: "y \<le> 2 ^ bit_length k" using real_power_gt[OF b(2)] ky(2) by linarith
  have x: "x = 1 / y" using assms by (simp add: y_def)
  have p1: "(0::real) < 2 ^ (bit_length k - 1)" by simp
  have "1 / 2 ^ bit_length k \<le> 1 / y"
    using hi y by (intro divide_left_mono) simp_all
  moreover have "1 / y < 1 / 2 ^ (bit_length k - 1)"
    using lo p1 y by (intro divide_strict_left_mono) (simp_all add: mult_pos_pos)
  ultimately have "inverse (2 ^ bit_length k) \<le> x \<and> x < inverse (2 ^ (bit_length k - 1))"
    unfolding x by (simp only: inverse_eq_divide) 
  then show ?thesis
    unfolding e1 unfolding e by (simp only: power_int_minus power_int_of_nat)
qed


lemma round_double_significand:
  assumes "0 < x"
  shows "2 ^ 52 \<le> round_half_even (x / quantum (binary_exponent x)) \<and>
         round_half_even (x / quantum (binary_exponent x)) \<le> 2 ^ 53"
proof -
  define p where "p = (2::real) powi binary_exponent x"
  have p: "0 < p" by (simp add: p_def)
  from binary_exponent_bounds[OF assms] have b: "p \<le> x" "x < 2 * p"
    by (simp_all add: p_def power_int_add)
  have q: "quantum (binary_exponent x) = p / 2 ^ 52"
    by (simp add: quantum_powi p_def power_int_diff)
  have s: "x / quantum (binary_exponent x) = x / p * 2 ^ 52" by (simp add: q)
  define r where "r = x / p"
  have r: "1 \<le> r" "r \<le> 2"
    using b p by (simp_all add: r_def pos_le_divide_eq pos_divide_le_eq)
  have "real_of_int (2 ^ 52) \<le> r * 2 ^ 52" "r * 2 ^ 52 \<le> real_of_int (2 ^ 53)"
    using r by simp_all
  then have "real_of_int (2 ^ 52) \<le> x / quantum (binary_exponent x)"
    "x / quantum (binary_exponent x) \<le> real_of_int (2 ^ 53)"
    unfolding s r_def by blast+
  from round_half_even_mono[OF this(1)] round_half_even_mono[OF this(2)]
  show ?thesis by (simp only: round_half_even_int) 
qed

lemmas round_defs = round_double_def binary_exponent_def quantum_def round_half_even_def
  bit_length.simps

text \<open>
  Some roundings, as CPython computes them: \<^verbatim>\<open>1 / 3\<close>, \<^verbatim>\<open>0.1 + 0.2\<close> (a tie, rounded to
  the even neighbour \<^verbatim>\<open>0.30000000000000004\<close>), \<^verbatim>\<open>float(2 ** 53 + 1)\<close>, and a number that is
  a double already.
\<close>

lemma round_double_examples:
  "round_double (1 / 3) = 6004799503160661 / 18014398509481984"
  "round_double (tenth + round_double (2 * tenth)) = 5404319552844596 / 18014398509481984"
  "round_double 9007199254740993 = 9007199254740992"
  "round_double tenth = tenth"
  "round_double (- 3 / 4) = - 3 / 4"
  by (simp_all add: tenth_def round_defs)

lemma three_tenths_eq:
  "three_tenths =
     \<lparr>nodes = [(0, \<lparr>nvalue = Some tenth, label = None, min_value = Some tenth,
                       max_value = Some tenth, importance = None\<rparr>),
               (1, \<lparr>nvalue = Some tenth, label = None, min_value = Some tenth,
                       max_value = Some tenth, importance = None\<rparr>),
               (2, \<lparr>nvalue = Some tenth, label = None, min_value = Some tenth,
                       max_value = Some tenth, importance = None\<rparr>)],
      edges = []\<rparr>"
  by (simp add: three_tenths_def empty_graph_def add_node_def node_attrs_def Let_def)



text \<open>The same value comes out of one \<^verbatim>\<open>merge_clusters\<close> call on the three nodes.\<close>

lemma merge_clusters_three_tenths:
  "merge_clusters_rnd round_double three_tenths (ClusterList [[0, 1, 2]]) =
     Inr \<lparr>nodes = [(3, \<lparr>nvalue = Some (7205759403792795 / 72057594037927936),
                        label = Some [0, 1, 2], min_value = Some tenth,
                        max_value = Some tenth, importance = Some 0\<rparr>)],
          edges = []\<rparr>"
  by (simp add: three_tenths_eq eval_defs)
     (simp add: tenth_def round_defs)




end
